theory Spec2Isabelle
  imports Main "HOL-Library.Word" "HOL-Library.Multiset"
begin

unbundle bit_operations_syntax

section \<open>leibniz: the fingerprint engine\<close>

text \<open>
  A shallow embedding of \<^verbatim>\<open>leibniz.go\<close>. A Go \<^verbatim>\<open>byte\<close> is an 8-bit word, a
  \<^verbatim>\<open>uint64\<close> a 64-bit word, an \<^verbatim>\<open>int64\<close> file size an \<open>int\<close> (sizes and offsets
  stay far from the ends of the range, so no operation on them wraps), a Go
  \<^verbatim>\<open>error\<close> a value of the datatype \<open>error\<close>, and a \<^verbatim>\<open>(value, error)\<close> result a
  sum with the error on the left.
\<close>

type_synonym byte = "8 word"
type_synonym uint64 = "64 word"

subsection \<open>Errors\<close>

text \<open>
  \<open>EOF\<close> is \<^verbatim>\<open>io.EOF\<close>; \<open>ErrorString s\<close> is what \<^verbatim>\<open>fmt.Errorf\<close> builds;
  \<open>PathError op path msg\<close> is an \<^verbatim>\<open>*os.PathError\<close> whose inner error prints as \<open>msg\<close>;
  \<open>DriverError s\<close> is an error of the database driver.
\<close>

datatype error =
    EOF
  | ErrorString string
  | PathError string string string
  | DriverError string

fun Error :: "error \<Rightarrow> string" where
  "Error EOF = ''EOF''"
| "Error (ErrorString s) = s"
| "Error (PathError op p msg) = op @ '' '' @ p @ '': '' @ msg"
| "Error (DriverError s) = s"

subsection \<open>Open files\<close>

text \<open>
  An open \<^verbatim>\<open>*os.File\<close>: the name it was opened under, the bytes that are in the file
  while it is read (their number need not be the size that was recorded when the
  directory was listed), and the byte positions the device cannot deliver. A read
  that reaches such a position stops there with an input/output error.
\<close>

record os_file =
  name :: string
  contents :: "byte list"
  bad :: "nat \<Rightarrow> bool"

definition read_error :: "os_file \<Rightarrow> error" where
  "read_error f = PathError ''read'' (name f) ''input/output error''"

text \<open>
  \<^verbatim>\<open>file.ReadAt(buf, off)\<close> with \<open>len = len(buf)\<close>: the bytes that were stored into the
  front of \<open>buf\<close> and the error. A negative offset is refused; fewer than \<open>len\<close>
  bytes before the end of the file give \<^verbatim>\<open>io.EOF\<close>; a full read gives no error.
\<close>

definition ReadAt :: "os_file \<Rightarrow> nat \<Rightarrow> int \<Rightarrow> byte list \<times> error option" where
  "ReadAt f len off =
     (if off < 0 then ([], Some (PathError ''readat'' (name f) ''negative offset''))
      else
        let avail = take len (drop (nat off) (contents f)) in
        case find (bad f) [nat off ..< nat off + length avail] of
          Some p \<Rightarrow> (take (p - nat off) avail, Some (read_error f))
        | None \<Rightarrow> if length avail < len then (avail, Some EOF) else (avail, None))"

text \<open>
  \<^verbatim>\<open>buf := make([]byte, n)\<close> followed by a read that stored \<open>got\<close>: the rest of the
  buffer keeps its zeros.
\<close>

definition filled :: "nat \<Rightarrow> byte list \<Rightarrow> byte list" where
  "filled n got = got @ replicate (n - length got) 0"

subsection \<open>The 64-bit streaming hash\<close>

text \<open>
  The hash is the library \<^verbatim>\<open>github.com/OneOfOne/xxhash\<close>, which is not part of the
  repository: XXH64 with seed 0. It is written out here after the published
  algorithm so that fingerprints can be computed; no proof below looks inside it.
\<close>

definition PRIME64_1 :: uint64 where "PRIME64_1 = 11400714785074694791"
definition PRIME64_2 :: uint64 where "PRIME64_2 = 14029467366897019727"
definition PRIME64_3 :: uint64 where "PRIME64_3 = 1609587929392839161"
definition PRIME64_4 :: uint64 where "PRIME64_4 = 9650029242287828579"
definition PRIME64_5 :: uint64 where "PRIME64_5 = 2870177450012600261"

fun le_word :: "byte list \<Rightarrow> uint64" where
  "le_word [] = 0"
| "le_word (b # bs) = ucast b OR push_bit 8 (le_word bs)"

definition xx_round :: "uint64 \<Rightarrow> uint64 \<Rightarrow> uint64" where
  "xx_round acc inp = word_rotl 31 (acc + inp * PRIME64_2) * PRIME64_1"

definition xx_merge :: "uint64 \<Rightarrow> uint64 \<Rightarrow> uint64" where
  "xx_merge h v = (h XOR xx_round 0 v) * PRIME64_1 + PRIME64_4"

fun xx_stripes :: "uint64 \<times> uint64 \<times> uint64 \<times> uint64 \<Rightarrow> byte list
    \<Rightarrow> (uint64 \<times> uint64 \<times> uint64 \<times> uint64) \<times> byte list" where
  "xx_stripes (v1, v2, v3, v4) p =
     (if length p < 32 then ((v1, v2, v3, v4), p)
      else xx_stripes
             (xx_round v1 (le_word (take 8 p)),
              xx_round v2 (le_word (take 8 (drop 8 p))),
              xx_round v3 (le_word (take 8 (drop 16 p))),
              xx_round v4 (le_word (take 8 (drop 24 p))))
             (drop 32 p))"

fun xx_tail :: "uint64 \<Rightarrow> byte list \<Rightarrow> uint64" where
  "xx_tail h p =
     (if 8 \<le> length p then
        xx_tail (word_rotl 27 (h XOR xx_round 0 (le_word (take 8 p))) * PRIME64_1 + PRIME64_4)
                (drop 8 p)
      else if 4 \<le> length p then
        xx_tail (word_rotl 23 (h XOR le_word (take 4 p) * PRIME64_1) * PRIME64_2 + PRIME64_3)
                (drop 4 p)
      else if 1 \<le> length p then
        xx_tail (word_rotl 11 (h XOR ucast (hd p) * PRIME64_5) * PRIME64_1) (drop 1 p)
      else h)"

declare xx_stripes.simps [simp del] xx_tail.simps [simp del]

definition xx_avalanche :: "uint64 \<Rightarrow> uint64" where
  "xx_avalanche h0 =
     (let h1 = (h0 XOR drop_bit 33 h0) * PRIME64_2;
          h2 = (h1 XOR drop_bit 29 h1) * PRIME64_3
      in h2 XOR drop_bit 32 h2)"

definition XXH64 :: "uint64 \<Rightarrow> byte list \<Rightarrow> uint64" where
  "XXH64 seed inp =
     (let (h, rest) =
            (if 32 \<le> length inp then
               (case xx_stripes (seed + PRIME64_1 + PRIME64_2, seed + PRIME64_2,
                                 seed, seed - PRIME64_1) inp of
                  ((v1, v2, v3, v4), rest) \<Rightarrow>
                    (xx_merge (xx_merge (xx_merge (xx_merge
                       (word_rotl 1 v1 + word_rotl 7 v2 + word_rotl 12 v3 + word_rotl 18 v4)
                       v1) v2) v3) v4, rest))
             else (seed + PRIME64_5, inp))
      in xx_avalanche (xx_tail (h + of_nat (length inp)) rest))"

text \<open>
  The streaming object \<^verbatim>\<open>xxhash.New64()\<close>: its state is the bytes written so far,
  and \<^verbatim>\<open>Sum64\<close> is the hash of all of them.
\<close>

type_synonym XXHash64 = "byte list"

definition New64 :: XXHash64 where
  "New64 = []"

definition Write :: "XXHash64 \<Rightarrow> byte list \<Rightarrow> XXHash64" where
  "Write xx b = xx @ b"

definition Sum64 :: "XXHash64 \<Rightarrow> uint64" where
  "Sum64 xx = XXH64 0 xx"

text \<open>
  \<^verbatim>\<open>io.Copy(xx, file)\<close> on a file that was just opened: every byte of the file goes
  into the hash, unless a position cannot be read, which ends the copy with the
  error after the bytes before it.
\<close>

definition Copy :: "XXHash64 \<Rightarrow> os_file \<Rightarrow> XXHash64 \<times> error option" where
  "Copy xx f =
     (case find (bad f) [0 ..< length (contents f)] of
        Some p \<Rightarrow> (Write xx (take p (contents f)), Some (read_error f))
      | None \<Rightarrow> (Write xx (contents f), None))"

text \<open>
  \<^verbatim>\<open>binary.Write(buf, binary.LittleEndian, []uint64{a, b})\<close> into a fresh
  \<^verbatim>\<open>bytes.Buffer\<close>: eight bytes for each value, lowest byte first. Writing to a
  buffer in memory has no error, so the \<^verbatim>\<open>err != nil\<close> branch after it is never taken.
\<close>

definition le64 :: "uint64 \<Rightarrow> byte list" where
  "le64 w = map (\<lambda>i. ucast (drop_bit (8 * i) w)) [0 ..< 8]"

definition uint64_of :: "int \<Rightarrow> uint64" where
  "uint64_of n = word_of_int n"

text \<open>Go's integer division truncates towards zero.\<close>

definition quo :: "int \<Rightarrow> int \<Rightarrow> int" where
  "quo a b = sgn a * sgn b * (\<bar>a\<bar> div \<bar>b\<bar>)"

definition fullHash :: "os_file \<Rightarrow> int \<Rightarrow> error + byte list" where
  "fullHash file sz =
     (case Copy New64 file of
        (xx, Some err) \<Rightarrow> Inl err
      | (xx, None) \<Rightarrow> Inr (le64 (Sum64 xx) @ le64 (uint64_of sz)))"

text \<open>
  The loop of \<open>sampleHash\<close> over the indexed offsets. \<open>n\<close> is \<^verbatim>\<open>len(offsets)\<close>. The
  variable \<open>err\<close> is assigned by every read, so the loop hands on the hash state
  and the error of the last read only.
\<close>

fun sample_loop :: "os_file \<Rightarrow> nat \<Rightarrow> (nat \<times> int) list \<Rightarrow> XXHash64 \<Rightarrow> error option
    \<Rightarrow> error + (XXHash64 \<times> error option)" where
  "sample_loop file n [] xx err = Inr (xx, err)"
| "sample_loop file n ((i, offset) # rest) xx err =
     (case ReadAt file 1024 offset of
        (got, err') \<Rightarrow>
          if err' = Some EOF \<and> i < n - 1 then Inl (ErrorString ''Unexpected EOF!'')
          else sample_loop file n rest (Write xx (filled 1024 got)) err')"

definition sampleHash :: "os_file \<Rightarrow> int \<Rightarrow> error + byte list" where
  "sampleHash file sz =
     (let offsets = [0, quo sz 2, sz - 1024] in
      case sample_loop file (length offsets) (enumerate 0 offsets) New64 None of
        Inl e \<Rightarrow> Inl e
      | Inr (xx, err) \<Rightarrow>
          (case err of
             Some e \<Rightarrow> if e \<noteq> EOF then Inl e
                       else Inr (le64 (Sum64 xx) @ le64 (uint64_of sz))
           | None \<Rightarrow> Inr (le64 (Sum64 xx) @ le64 (uint64_of sz))))"

text \<open>
  \<open>SmartHash\<close> reads one thing from its \<^verbatim>\<open>os.FileInfo\<close> argument, \<^verbatim>\<open>info.Size()\<close>;
  the model takes that size as \<open>sz\<close>.
\<close>

definition SmartHash :: "os_file \<Rightarrow> int \<Rightarrow> int \<Rightarrow> error + uint64" where
  "SmartHash file sz threshold =
     (case (if sz < threshold then fullHash file sz else sampleHash file sz) of
        Inl err \<Rightarrow> Inl err
      | Inr xxSum \<Rightarrow> Inr (Sum64 (Write New64 xxSum)))"

section \<open>The walker\<close>

subsection \<open>Paths\<close>

text \<open>
  \<^verbatim>\<open>path.Clean\<close>, \<^verbatim>\<open>path.Join\<close> (for two elements) and \<^verbatim>\<open>path.Dir\<close> of the Go
  library: a path is cut at its slashes, empty and \<^verbatim>\<open>.\<close> elements go, a \<^verbatim>\<open>..\<close>
  takes the element before it with it, and what is left is put together again.
\<close>

fun split_slash :: "string \<Rightarrow> string list" where
  "split_slash [] = [[]]"
| "split_slash (c # cs) =
     (if c = CHR ''/'' then [] # split_slash cs
      else (case split_slash cs of [] \<Rightarrow> [[c]] | x # xs \<Rightarrow> (c # x) # xs))"

fun join_slash :: "string list \<Rightarrow> string" where
  "join_slash [] = []"
| "join_slash [x] = x"
| "join_slash (x # y # ys) = x @ ''/'' @ join_slash (y # ys)"

fun clean_elems :: "bool \<Rightarrow> string list \<Rightarrow> string list \<Rightarrow> string list" where
  "clean_elems rooted out [] = rev out"
| "clean_elems rooted out (e # es) =
     (if e = [] \<or> e = ''.'' then clean_elems rooted out es
      else if e = ''..'' then
        (case out of
           [] \<Rightarrow> if rooted then clean_elems rooted [] es else clean_elems rooted [''..''] es
         | x # xs \<Rightarrow> if x \<noteq> ''..'' then clean_elems rooted xs es
                     else clean_elems rooted (''..'' # out) es)
      else clean_elems rooted (e # out) es)"

definition Clean :: "string \<Rightarrow> string" where
  "Clean p =
     (if p = [] then ''.''
      else
        let rooted = (hd p = CHR ''/'');
            s = (if rooted then ''/'' else []) @ join_slash (clean_elems rooted [] (split_slash p))
        in if s = [] then ''.'' else s)"

definition Join :: "string \<Rightarrow> string \<Rightarrow> string" where
  "Join a b =
     (if a = [] \<and> b = [] then []
      else if a = [] then Clean b
      else Clean (a @ ''/'' @ b))"

definition Dir :: "string \<Rightarrow> string" where
  "Dir p = Clean (rev (dropWhile (\<lambda>c. c \<noteq> CHR ''/'') (rev p)))"

subsection \<open>The file system\<close>

text \<open>
  What the walker sees of an entry: the \<^verbatim>\<open>os.FileInfo\<close> that \<^verbatim>\<open>os.Stat\<close> or
  \<^verbatim>\<open>Readdir\<close> gave for it (\<open>Name\<close>, \<open>Mode\<close>, \<open>Size\<close>, \<open>ModTime\<close>), what \<^verbatim>\<open>os.Open\<close>
  answers for its path (\<open>Open\<close>), and what \<^verbatim>\<open>Readdir(0)\<close> answers on the opened
  handle (\<open>Readdir\<close>). The file system does not change during a walk.
\<close>

datatype FileMode = ModeRegular | ModeDir | ModeIrregular

datatype fsnode =
  Node (Name: string) (Mode: FileMode) (Size: int) (ModTime: int)
       (Open: "error + os_file") (Readdir: "error + fsnode list")

definition IsDir :: "fsnode \<Rightarrow> bool" where
  "IsDir info = (Mode info = ModeDir)"

definition IsRegular :: "FileMode \<Rightarrow> bool" where
  "IsRegular m = (m = ModeRegular)"

record WalkerContext =
  Info :: fsnode
  Context :: string

subsection \<open>Filters and options\<close>

text \<open>
  A compiled \<^verbatim>\<open>*regexp.Regexp\<close> is represented by its \<^verbatim>\<open>MatchString\<close>, a predicate on
  strings.
\<close>

type_synonym RegexFlag = "(string \<Rightarrow> bool) list"

fun Match :: "RegexFlag \<Rightarrow> string \<Rightarrow> bool" where
  "Match [] s = False"
| "Match (re # e) s = (if re s then True else Match e s)"

record Options =
  root :: string
  catalogPath :: string
  excludes :: RegexFlag
  includes' :: RegexFlag
  hashFile :: string
  verbose :: bool

subsection \<open>The catalog\<close>

text \<open>
  The database behind \<^verbatim>\<open>c.Db\<close>: the two tables, and the statements the driver
  refuses to execute (a locked or read-only database, a full disk), with the error
  it gives for them. A row that is inserted gets the next free identifier, and
  \<^verbatim>\<open>LastInsertId\<close> returns it without an error of its own.
\<close>

datatype stmt =
    SelectRoot string
  | InsertRoot string
  | InsertFile int string string int

record FileRow =
  root_id :: int
  hash :: string
  path :: string
  mtime :: int

record DB =
  roots :: "(int \<times> string) list"
  files :: "(int \<times> FileRow) list"
  refuses :: "stmt \<Rightarrow> error option"

definition next_id :: "int list \<Rightarrow> int" where
  "next_id ids = fold max ids 0 + 1"

definition EnsureRootId :: "DB \<Rightarrow> string \<Rightarrow> DB \<times> (error + int)" where
  "EnsureRootId d r =
     (case refuses d (SelectRoot r) of
        Some err \<Rightarrow> (d, Inl err)
      | None \<Rightarrow>
          (case find (\<lambda>row. snd row = r) (roots d) of
             Some row \<Rightarrow> (d, Inr (fst row))
           | None \<Rightarrow>
               (case refuses d (InsertRoot r) of
                  Some err \<Rightarrow> (d, Inl err)
                | None \<Rightarrow>
                    let i = next_id (map fst (roots d))
                    in (d\<lparr>roots := roots d @ [(i, r)]\<rparr>, Inr i))))"

text \<open>\<^verbatim>\<open>fmt.Sprintf("%x", hash)\<close>: lower-case hexadecimal without leading zeros.\<close>

fun hex :: "nat \<Rightarrow> string" where
  "hex n = (if n < 16 then [''0123456789abcdef'' ! n]
            else hex (n div 16) @ [''0123456789abcdef'' ! (n mod 16)])"

declare hex.simps [simp del]

definition CatalogHash :: "DB \<Rightarrow> int \<Rightarrow> uint64 \<Rightarrow> string \<Rightarrow> int \<Rightarrow> DB \<times> (error + int)" where
  "CatalogHash d rootId h p mt =
     (let hashString = hex (unat h) in
      case refuses d (InsertFile rootId hashString p mt) of
        Some err \<Rightarrow> (d, Inl err)
      | None \<Rightarrow>
          let i = next_id (map fst (files d))
          in (d\<lparr>files := files d @
                 [(i, \<lparr>root_id = rootId, hash = hashString, path = p, mtime = mt\<rparr>)]\<rparr>,
              Inr i))"

subsection \<open>The walk\<close>

text \<open>
  The state a walk changes: the database, and the calls of \<^verbatim>\<open>os.Open\<close> it has made,
  in order: \<open>OpenDir p\<close> is the call in \<open>Run\<close> that opens a directory to list it,
  \<open>OpenFile p\<close> the call in \<open>HashAndCatalog\<close> that opens a file to fingerprint it.
  What the program prints is not modelled.
\<close>

datatype os_call = OpenDir string | OpenFile string

record world =
  Db :: DB
  calls :: "os_call list"

record Catalog =
  Opts :: Options

definition HashAndCatalog :: "Catalog \<Rightarrow> int \<Rightarrow> WalkerContext \<Rightarrow> world \<Rightarrow> world \<times> error option" where
  "HashAndCatalog c rootId walked w =
     (let realpath = Join (Context walked) (Name (Info walked));
          w1 = w\<lparr>calls := calls w @ [OpenFile realpath]\<rparr>
      in case Open (Info walked) of
           Inl err \<Rightarrow>
             (case err of
                PathError op p msg \<Rightarrow>
                  if msg = ''permission denied'' then (w1, None) else (w1, Some err)
              | _ \<Rightarrow> (w1, Some (ErrorString ''not a PathError!'')))
         | Inr file \<Rightarrow>
             (case SmartHash file (Size (Info walked)) (512 * 1024) of
                Inl err \<Rightarrow> (w1, Some (ErrorString (realpath @ '': '' @ Error err)))
              | Inr smartHash \<Rightarrow>
                  (case CatalogHash (Db w1) rootId smartHash realpath (ModTime (Info walked)) of
                     (d, res) \<Rightarrow> (w1\<lparr>Db := d\<rparr>, None))))"

text \<open>
  The inner loop of \<open>Run\<close> over the entries of a directory: the items it appends
  to the queue.
\<close>

fun enqueue :: "Catalog \<Rightarrow> string \<Rightarrow> fsnode list \<Rightarrow> WalkerContext list" where
  "enqueue c context [] = []"
| "enqueue c context (info # infos) =
     (if Match (excludes (Opts c)) (Join context (Name info)) then enqueue c context infos
      else \<lparr>Info = info, Context = context\<rparr> # enqueue c context infos)"

lemma Readdir_size:
  "Readdir n = Inr infos \<Longrightarrow> sum_list (map size infos) < size n"
proof (cases n)
  case (Node nm md sz mt opn rd)
  assume "Readdir n = Inr infos"
  with Node have "rd = Inr infos" by simp
  moreover have "sum_list (map size infos) \<le> size_list size infos"
    by (induction infos) auto
  ultimately show ?thesis using Node by simp
qed

lemma enqueue_size:
  "sum_list (map (\<lambda>q. size (Info q)) (enqueue c context infos)) \<le> sum_list (map size infos)"
  by (induction infos) auto

lemma enqueue_lt:
  assumes "Readdir n = Inr infos"
  shows "sum_list (map (\<lambda>q. size (Info q)) (enqueue c ctx infos)) < size n"
  using Readdir_size [OF assms] enqueue_size [of c ctx infos] by simp

lemma size_fsnode_pos: "0 < size (n :: fsnode)"
  by (cases n) simp

text \<open>The outer loop of \<open>Run\<close> over the queue.\<close>

function walk :: "Catalog \<Rightarrow> int \<Rightarrow> WalkerContext list \<Rightarrow> world \<Rightarrow> world \<times> error option" where
  "walk c rootId [] w = (w, None)"
| "walk c rootId (cur # fileQ) w =
     (let context = Join (Context cur) (Name (Info cur)) in
      if IsDir (Info cur) then
        (let w1 = w\<lparr>calls := calls w @ [OpenDir context]\<rparr> in
         case Open (Info cur) of
           Inl err \<Rightarrow> (w1, Some err)
         | Inr dir \<Rightarrow>
             (case Readdir (Info cur) of
                Inl err \<Rightarrow> (w1, Some err)
              | Inr infos \<Rightarrow> walk c rootId (fileQ @ enqueue c context infos) w1))
      else if \<not> IsRegular (Mode (Info cur)) then walk c rootId fileQ w
      else if length (includes' (Opts c)) > 0 \<and> \<not> Match (includes' (Opts c)) context
        then walk c rootId fileQ w
      else
        (case HashAndCatalog c rootId cur w of
           (w', Some err) \<Rightarrow> (w', Some err)
         | (w', None) \<Rightarrow> walk c rootId fileQ w'))"
  by pat_completeness auto
termination
proof (relation "measure (\<lambda>(c, rootId, fileQ, w). sum_list (map (\<lambda>q. size (Info q)) fileQ))",
    goal_cases)
  case 1
  show ?case by simp
next
  case 2
  then show ?case by (simp add: enqueue_lt)
next
  case 3
  then show ?case by (simp add: size_fsnode_pos)
next
  case 4
  then show ?case by (simp add: size_fsnode_pos)
next
  case 5
  then show ?case by (simp add: size_fsnode_pos)
qed

declare walk.simps [simp del]

text \<open>
  \<open>Run\<close>. \<open>stat\<close> is what \<^verbatim>\<open>os.Stat(root)\<close> answers: an error, or the root with
  everything below it.
\<close>

definition Run :: "Catalog \<Rightarrow> error + fsnode \<Rightarrow> world \<Rightarrow> world \<times> error option" where
  "Run c stat w =
     (let r = root (Opts c) in
      case stat of
        Inl err \<Rightarrow> (w, Some err)
      | Inr rootInfo \<Rightarrow>
          if \<not> IsDir rootInfo
          then (w, Some (ErrorString (''Root ('' @ r @ '') is not a directory.'')))
          else
            (case EnsureRootId (Db w) r of
               (d, Inl err) \<Rightarrow> (w\<lparr>Db := d\<rparr>, Some err)
             | (d, Inr rootId) \<Rightarrow>
                 walk c rootId [\<lparr>Info = rootInfo, Context = Dir r\<rparr>] (w\<lparr>Db := d\<rparr>)))"

section \<open>Notions used to state the properties\<close>

text \<open>
  A file is \<open>intact\<close> when every byte of it can be read. \<open>window f off\<close> is what
  is in the file in the 1024 positions from \<open>off\<close> on.
\<close>

definition intact :: "os_file \<Rightarrow> bool" where
  "intact f = list_all (\<lambda>p. \<not> bad f p) [0 ..< length (contents f)]"

definition window :: "os_file \<Rightarrow> int \<Rightarrow> byte list" where
  "window f off = take 1024 (drop (nat off) (contents f))"

text \<open>The path of a queue item, as both \<open>Run\<close> and \<open>HashAndCatalog\<close> compute it.\<close>

definition qpath :: "WalkerContext \<Rightarrow> string" where
  "qpath q = Join (Context q) (Name (Info q))"

text \<open>The entries of a listing of the directory \<open>p\<close> that no exclusion pattern matches.\<close>

definition kept :: "Catalog \<Rightarrow> string \<Rightarrow> fsnode list \<Rightarrow> fsnode list" where
  "kept c p infos = filter (\<lambda>i. \<not> Match (excludes (Opts c)) (Join p (Name i))) infos"

lemma kept_size:
  "x \<in> set (kept c p infos) \<Longrightarrow> size x < Suc (Suc (size_list size infos))"
  by (induction infos) (auto simp: kept_def split: if_splits)

text \<open>
  The walk as the specification describes it, by recursion over the tree: a
  directory is opened and every entry of it that is not excluded is visited; a
  regular file is opened for fingerprinting when there are no inclusion patterns or
  one of them matches its path; anything else is passed over. The inclusion patterns
  are consulted for files only.
\<close>

function visits :: "Catalog \<Rightarrow> string \<Rightarrow> fsnode \<Rightarrow> os_call list" where
  "visits c ctx (Node nm md sz mt opn rd) =
     (let p = Join ctx nm in
      if md = ModeDir then
        OpenDir p #
        (case rd of
           Inl e \<Rightarrow> []
         | Inr infos \<Rightarrow> concat (map (visits c p) (kept c p infos)))
      else if md = ModeRegular \<and> (includes' (Opts c) = [] \<or> Match (includes' (Opts c)) p)
        then [OpenFile p]
      else [])"
  by pat_completeness auto
termination
  by (relation "measure (\<lambda>(c, ctx, n). size n)") (auto simp: kept_size)

text \<open>
  The tree with every excluded entry deleted from every listing, together with all
  that is below it.
\<close>

function prune :: "Catalog \<Rightarrow> string \<Rightarrow> fsnode \<Rightarrow> fsnode" where
  "prune c ctx (Node nm md sz mt opn rd) =
     Node nm md sz mt opn
       (case rd of
          Inl e \<Rightarrow> Inl e
        | Inr infos \<Rightarrow> Inr (map (prune c (Join ctx nm)) (kept c (Join ctx nm) infos)))"
  by pat_completeness auto
termination
  by (relation "measure (\<lambda>(c, ctx, n). size n)") (auto simp: kept_size)

declare visits.simps [simp del] prune.simps [simp del]

definition pruneq :: "Catalog \<Rightarrow> WalkerContext \<Rightarrow> WalkerContext" where
  "pruneq c q = q\<lparr>Info := prune c (Context q) (Info q)\<rparr>"



text \<open>
  A queue is admissible when each item in it is a directory or has a path that is
  not excluded. The queue \<open>Run\<close> starts with is admissible, the root being a directory.
\<close>

definition admissible :: "Catalog \<Rightarrow> WalkerContext list \<Rightarrow> bool" where
  "admissible c Q = list_all (\<lambda>q. IsDir (Info q) \<or> \<not> Match (excludes (Opts c)) (qpath q)) Q"

text \<open>
  What a walk from the queue \<open>Q\<close> may have done between the states \<open>w\<close> and \<open>w'\<close>:
  it has added calls and rows, no file that it opened and no row that it wrote has
  an excluded path, and a directory that it opened with an excluded path was in
  \<open>Q\<close>.
\<close>

definition clean_run :: "Catalog \<Rightarrow> WalkerContext list \<Rightarrow> world \<Rightarrow> world \<Rightarrow> bool" where
  "clean_run c Q w w' =
     (\<exists>cs rs. calls w' = calls w @ cs \<and> files (Db w') = files (Db w) @ rs
        \<and> (\<forall>p. OpenFile p \<in> set cs \<longrightarrow> \<not> Match (excludes (Opts c)) p)
        \<and> (\<forall>p. OpenDir p \<in> set cs \<longrightarrow> p \<in> qpath ` set Q \<or> \<not> Match (excludes (Opts c)) p)
        \<and> (\<forall>row \<in> set rs. \<not> Match (excludes (Opts c)) (path (snd row))))"

text \<open>The calls and the rows that a run adds to those of the state it started in.\<close>

definition new_calls :: "world \<Rightarrow> world \<Rightarrow> os_call list" where
  "new_calls w w' = drop (length (calls w)) (calls w')"

definition new_paths :: "world \<Rightarrow> world \<Rightarrow> string list" where
  "new_paths w w' = map (\<lambda>row. path (snd row)) (drop (length (files (Db w))) (files (Db w')))"

section \<open>Example data\<close>

text \<open>A pattern without metacharacters matches the strings that contain it.\<close>

fun literal :: "string \<Rightarrow> string \<Rightarrow> bool" where
  "literal pat [] = (pat = [])"
| "literal pat (c # s) = (take (length pat) (c # s) = pat \<or> literal pat s)"

text \<open>A pattern anchored at both ends matches one string.\<close>

definition exactly :: "string \<Rightarrow> string \<Rightarrow> bool" where
  "exactly pat s = (s = pat)"

definition plain_file :: "string \<Rightarrow> string \<Rightarrow> byte list \<Rightarrow> fsnode" where
  "plain_file dir nm bs =
     Node nm ModeRegular (int (length bs)) 0
       (Inr \<lparr>name = dir @ ''/'' @ nm, contents = bs, bad = (\<lambda>p. False)\<rparr>)
       (Inl (PathError ''readdirent'' (dir @ ''/'' @ nm) ''not a directory''))"

definition locked_file :: "string \<Rightarrow> string \<Rightarrow> fsnode" where
  "locked_file dir nm =
     Node nm ModeRegular 10 0
       (Inl (PathError ''open'' (dir @ ''/'' @ nm) ''permission denied''))
       (Inl (PathError ''readdirent'' (dir @ ''/'' @ nm) ''not a directory''))"

definition directory :: "string \<Rightarrow> string \<Rightarrow> fsnode list \<Rightarrow> fsnode" where
  "directory dir nm entries =
     Node nm ModeDir 4096 0
       (Inr \<lparr>name = dir @ ''/'' @ nm, contents = [], bad = (\<lambda>p. False)\<rparr>)
       (Inr entries)"

definition options :: "string \<Rightarrow> RegexFlag \<Rightarrow> RegexFlag \<Rightarrow> Catalog" where
  "options r ex inc =
     \<lparr>Opts = \<lparr>root = r, catalogPath = ''/.leibniz-catalog'', excludes = ex, includes' = inc,
              hashFile = [], verbose = False\<rparr>\<rparr>"

definition empty_world :: world where
  "empty_world = \<lparr>Db = \<lparr>roots = [], files = [], refuses = (\<lambda>s. None)\<rparr>, calls = []\<rparr>"

definition ten_bytes :: "byte list" where
  "ten_bytes = [1, 2, 3, 4, 5, 6, 7, 8, 9, 10]"

text \<open>
  The example of the specification: \<^verbatim>\<open>root/a.txt\<close> and \<^verbatim>\<open>root/skip/b.txt\<close>, ten bytes
  each.
\<close>

definition skip_tree :: fsnode where
  "skip_tree =
     directory [] ''root''
       [plain_file ''/root'' ''a.txt'' ten_bytes,
        directory ''/root'' ''skip'' [plain_file ''/root/skip'' ''b.txt'' ten_bytes]]"

definition zeros_file :: os_file where
  "zeros_file = \<lparr>name = ''/data/big'', contents = replicate 524288 0, bad = (\<lambda>p. False)\<rparr>"

definition zeros_file_changed :: os_file where
  "zeros_file_changed = zeros_file\<lparr>contents := (contents zeros_file)[2000 := 1]\<rparr>"

definition small_file :: os_file where
  "small_file = \<lparr>name = ''/data/a.txt'', contents = [1, 2, 3], bad = (\<lambda>p. False)\<rparr>"

definition bad_sector_file :: os_file where
  "bad_sector_file =
     \<lparr>name = ''/data/big'', contents = replicate 524288 1, bad = (\<lambda>p. p = 0)\<rparr>"

definition short_file :: os_file where
  "short_file = \<lparr>name = ''/root/big'', contents = replicate 1000 7, bad = (\<lambda>p. False)\<rparr>"

definition tail_short_file :: os_file where
  "tail_short_file = \<lparr>name = ''/root/big'', contents = replicate 524000 7, bad = (\<lambda>p. False)\<rparr>"

definition short_item :: WalkerContext where
  "short_item =
     \<lparr>Info = Node ''big'' ModeRegular 524288 0 (Inr short_file)
               (Inl (PathError ''readdirent'' ''/root/big'' ''not a directory'')),
      Context = ''/root''\<rparr>"

definition item :: "string \<Rightarrow> fsnode \<Rightarrow> WalkerContext" where
  "item ctx n = \<lparr>Info = n, Context = ctx\<rparr>"

definition both_tree :: fsnode where
  "both_tree =
     directory [] ''root''
       [plain_file ''/root'' ''a.txt'' ten_bytes, plain_file ''/root'' ''skip.txt'' ten_bytes]"

definition txt_tree :: fsnode where
  "txt_tree =
     directory [] ''root''
       [plain_file ''/root'' ''a.txt'' ten_bytes,
        plain_file ''/root'' ''b.bin'' ten_bytes,
        directory ''/root'' ''sub'' [plain_file ''/root/sub'' ''c.txt'' ten_bytes]]"

definition locked_world :: world where
  "locked_world =
     \<lparr>Db = \<lparr>roots = [(1, ''/root'')], files = [],
             refuses = (\<lambda>s. case s of InsertFile i h p t \<Rightarrow> Some (DriverError ''database is locked'')
                                | _ \<Rightarrow> None)\<rparr>,
      calls = []\<rparr>"

section \<open>The fingerprint engine: properties\<close>

subsection \<open>Reading an intact file\<close>

lemma find_upt_None: "(\<And>p. a \<le> p \<Longrightarrow> p < b \<Longrightarrow> \<not> P p) \<Longrightarrow> find P [a ..< b] = None"
  by (simp add: find_None_iff)

lemma find_upt_first: "a < b \<Longrightarrow> P a \<Longrightarrow> find P [a ..< b] = Some a"
  by (simp add: upt_conv_Cons)

lemma ReadAt_intact:
  assumes "intact f" and "0 \<le> off"
  shows "ReadAt f 1024 off =
         (window f off, if length (window f off) < 1024 then Some EOF else None)"
proof -
  have "find (bad f) [nat off ..< nat off + length (window f off)] = None"
  proof (rule find_upt_None)
    fix p assume "nat off \<le> p" "p < nat off + length (window f off)"
    then have "p < length (contents f)" by (simp add: window_def)
    with assms(1) show "\<not> bad f p" by (simp add: intact_def list_all_iff)
  qed
  with assms(2) show ?thesis by (simp add: ReadAt_def window_def Let_def)
qed

lemma Copy_intact:
  assumes "intact f"
  shows "Copy xx f = (Write xx (contents f), None)"
proof -
  have "find (bad f) [0 ..< length (contents f)] = None"
    using assms by (simp add: intact_def list_all_iff find_None_iff)
  then show ?thesis by (simp add: Copy_def)
qed

lemma quo_nonneg: "0 \<le> a \<Longrightarrow> quo a 2 = a div 2"
  by (cases "a = 0") (simp_all add: quo_def)

text \<open>The loop of \<open>sampleHash\<close>, turn by turn.\<close>

lemma sampleHash_unfold:
  "sampleHash f sz =
     (case ReadAt f 1024 0 of (g0, e0) \<Rightarrow>
        if e0 = Some EOF then Inl (ErrorString ''Unexpected EOF!'')
        else case ReadAt f 1024 (quo sz 2) of (g1, e1) \<Rightarrow>
          if e1 = Some EOF then Inl (ErrorString ''Unexpected EOF!'')
          else case ReadAt f 1024 (sz - 1024) of (g2, e2) \<Rightarrow>
            (case e2 of
               Some e \<Rightarrow>
                 if e \<noteq> EOF then Inl e
                 else Inr (le64 (XXH64 0 (filled 1024 g0 @ filled 1024 g1 @ filled 1024 g2))
                           @ le64 (uint64_of sz))
             | None \<Rightarrow>
                 Inr (le64 (XXH64 0 (filled 1024 g0 @ filled 1024 g1 @ filled 1024 g2))
                      @ le64 (uint64_of sz))))"
  by (simp add: sampleHash_def Let_def enumerate_eq_zip upt_rec New64_def Write_def Sum64_def
      split: prod.splits option.splits)

subsection \<open>The sixteen bytes\<close>

lemma le64_length: "length (le64 w) = 8"
  by (simp add: le64_def)

lemma le_word_le64: "le_word (le64 w) = w"
proof (rule bit_word_eqI)
  fix n assume "n < LENGTH(64)"
  then have n: "n < 64" by simp
  consider "n < 8" | "8 \<le> n" "n < 16" | "16 \<le> n" "n < 24" | "24 \<le> n" "n < 32"
    | "32 \<le> n" "n < 40" | "40 \<le> n" "n < 48" | "48 \<le> n" "n < 56" | "56 \<le> n"
    by linarith
  then show "bit (le_word (le64 w)) n = bit w n"
    using n by cases (auto simp add: le64_def upt_rec bit_simps)
qed

lemma ReadAt_same_window:
  assumes "name g = name f" and "bad g = bad f" and "window g off = window f off"
  shows "ReadAt g 1024 off = ReadAt f 1024 off"
proof -
  have "take 1024 (drop (nat off) (contents g)) = take 1024 (drop (nat off) (contents f))"
    using assms(3) by (simp add: window_def)
  then show ?thesis
    unfolding ReadAt_def read_error_def by (simp only: assms(1,2))
qed

lemma sampled_formula:
  assumes "512 * 1024 \<le> sz" and "intact f"
  shows "SmartHash f sz (512 * 1024) =
           (if length (window f 0) < 1024 \<or> length (window f (sz div 2)) < 1024
            then Inl (ErrorString ''Unexpected EOF!'')
            else Inr (XXH64 0 (le64 (XXH64 0 (window f 0 @ window f (sz div 2) @
                                       filled 1024 (window f (sz - 1024))))
                               @ le64 (uint64_of sz))))"
proof -
  have q: "quo sz 2 = sz div 2" using assms(1) by (simp add: quo_nonneg)
  have off: "0 \<le> sz div 2" "0 \<le> sz - 1024" using assms(1) by simp_all
  have full: "filled 1024 (window f k) = window f k" if "\<not> length (window f k) < 1024" for k
    using that by (simp add: filled_def window_def)
  show ?thesis
    using assms(1) full
    by (simp add: SmartHash_def sampleHash_unfold q ReadAt_intact [OF assms(2)] off
        New64_def Write_def Sum64_def)
qed

text \<open>
  C1. At or above the threshold of 512 KiB the fingerprint is determined by the
  three windows at the offsets 0, \<open>sz div 2\<close> and \<open>sz - 1024\<close> and by the size. For an
  intact file it is the hash of the sixteen bytes made of the hash of the three
  windows, fed in this order, and of the size (or the truncation error, when one of
  the first two windows is short). And a file that differs from \<open>f\<close> only in bytes
  outside the three windows has the same fingerprint as \<open>f\<close>.
\<close>

theorem SmartHash_sampled:
  assumes "512 * 1024 \<le> sz"
  shows "(intact f \<longrightarrow>
          SmartHash f sz (512 * 1024) =
           (if length (window f 0) < 1024 \<or> length (window f (sz div 2)) < 1024
            then Inl (ErrorString ''Unexpected EOF!'')
            else Inr (XXH64 0 (le64 (XXH64 0 (window f 0 @ window f (sz div 2) @
                                       filled 1024 (window f (sz - 1024))))
                               @ le64 (uint64_of sz)))))
         \<and> (\<forall>g. name g = name f \<and> bad g = bad f
                  \<and> window g 0 = window f 0
                  \<and> window g (sz div 2) = window f (sz div 2)
                  \<and> window g (sz - 1024) = window f (sz - 1024)
                \<longrightarrow> SmartHash g sz (512 * 1024) = SmartHash f sz (512 * 1024))"
proof -
  have q: "quo sz 2 = sz div 2" using assms by (simp add: quo_nonneg)
  have "SmartHash g sz (512 * 1024) = SmartHash f sz (512 * 1024)"
    if "name g = name f" "bad g = bad f" "window g 0 = window f 0"
      "window g (sz div 2) = window f (sz div 2)" "window g (sz - 1024) = window f (sz - 1024)"
    for g
  proof -
    have "sampleHash g sz = sampleHash f sz"
      unfolding sampleHash_unfold q
      by (simp only: ReadAt_same_window [OF that(1,2,3)] ReadAt_same_window [OF that(1,2,4)]
          ReadAt_same_window [OF that(1,2,5)])
    with assms show ?thesis by (simp add: SmartHash_def)
  qed
  with sampled_formula [OF assms] show ?thesis by blast
qed

theorem SmartHash_sampled_witness:
  "(512 * 1024 :: int) \<le> 524288 \<and> intact zeros_file
   \<and> name zeros_file_changed = name zeros_file \<and> bad zeros_file_changed = bad zeros_file
   \<and> window zeros_file_changed 0 = window zeros_file 0
   \<and> window zeros_file_changed (524288 div 2) = window zeros_file (524288 div 2)
   \<and> window zeros_file_changed (524288 - 1024) = window zeros_file (524288 - 1024)
   \<and> contents zeros_file_changed \<noteq> contents zeros_file
   \<and> SmartHash zeros_file_changed 524288 (512 * 1024) = SmartHash zeros_file 524288 (512 * 1024)
   \<and> SmartHash zeros_file 524288 (512 * 1024) =
       Inr (XXH64 0 (le64 (XXH64 0 (replicate 3072 0)) @ le64 524288))"
proof -
  have i1: "intact zeros_file"
    by (simp add: intact_def zeros_file_def list_all_iff)
  have nb: "name zeros_file_changed = name zeros_file" "bad zeros_file_changed = bad zeros_file"
    by (simp_all add: zeros_file_changed_def)
  have w0: "window zeros_file_changed 0 = window zeros_file 0"
    by (simp add: window_def zeros_file_changed_def zeros_file_def)
  have w1: "window zeros_file_changed (524288 div 2) = window zeros_file (524288 div 2)"
    by (simp add: window_def zeros_file_changed_def zeros_file_def)
  have w2: "window zeros_file_changed (524288 - 1024) = window zeros_file (524288 - 1024)"
    by (simp add: window_def zeros_file_changed_def zeros_file_def)
  have ne: "contents zeros_file_changed \<noteq> contents zeros_file"
  proof
    assume "contents zeros_file_changed = contents zeros_file"
    then have "contents zeros_file_changed ! 2000 = contents zeros_file ! 2000" by simp
    then show False by (simp add: zeros_file_changed_def zeros_file_def)
  qed
  have r: "replicate 1024 (0::byte) @ replicate 1024 0 @ replicate 1024 0 = replicate 3072 0"
    by (simp add: replicate_add [symmetric])
  have le: "(512 * 1024 :: int) \<le> 524288" by simp
  note main = SmartHash_sampled [OF le, of zeros_file]
  have v: "SmartHash zeros_file 524288 (512 * 1024) =
       Inr (XXH64 0 (le64 (XXH64 0 (replicate 3072 0)) @ le64 524288))"
    using main i1 r by (simp add: window_def zeros_file_def filled_def uint64_of_def)
  have c: "SmartHash zeros_file_changed 524288 (512 * 1024)
           = SmartHash zeros_file 524288 (512 * 1024)"
    using main nb w0 w1 w2 by blast
  from le i1 nb w0 w1 w2 ne v c show ?thesis by blast
qed

lemma fingerprint_below_threshold:
  assumes "sz < 512 * 1024" and "intact f"
  shows "SmartHash f sz (512 * 1024) =
         Inr (XXH64 0 (le64 (XXH64 0 (contents f)) @ le64 (uint64_of sz)))"
  using assms
  by (simp add: SmartHash_def fullHash_def Copy_intact New64_def Write_def Sum64_def)

text \<open>
  C2. Below the threshold the fingerprint of an intact file is the hash of sixteen
  bytes: the hash of the whole content, then the size, eight bytes each with the
  lowest byte first. So it is determined by the content and the size: another handle
  on the same content gives the same fingerprint.
\<close>

theorem SmartHash_full:
  assumes "sz < 512 * 1024" and "intact f"
  shows "SmartHash f sz (512 * 1024) =
           Inr (XXH64 0 (le64 (XXH64 0 (contents f)) @ le64 (uint64_of sz)))
         \<and> length (le64 (XXH64 0 (contents f)) @ le64 (uint64_of sz)) = 16
         \<and> le_word (take 8 (le64 (XXH64 0 (contents f)) @ le64 (uint64_of sz)))
             = XXH64 0 (contents f)
         \<and> le_word (drop 8 (le64 (XXH64 0 (contents f)) @ le64 (uint64_of sz)))
             = uint64_of sz
         \<and> (\<forall>g. intact g \<and> contents g = contents f
                \<longrightarrow> SmartHash g sz (512 * 1024) = SmartHash f sz (512 * 1024))"
  using assms fingerprint_below_threshold
  by (simp add: le64_length le_word_le64)

theorem SmartHash_full_witness:
  "(3 :: int) < 512 * 1024 \<and> intact small_file
   \<and> SmartHash small_file 3 (512 * 1024) =
       Inr (XXH64 0 (le64 (XXH64 0 [1, 2, 3]) @ le64 3))"
proof -
  have i: "intact small_file"
    by (simp add: intact_def small_file_def)
  from SmartHash_full [of 3 small_file, OF _ i] i show ?thesis
    by (simp add: small_file_def uint64_of_def)
qed

lemma find_bad_sector_later:
  "0 < a \<Longrightarrow> find (\<lambda>p. p = 0) [a ..< b] = None"
  by (simp add: find_None_iff)

text \<open>
  C3. A file of 512 KiB whose first byte cannot be read: the read of the first
  window fails with an input/output error and stores nothing, the other two reads
  succeed, and \<open>SmartHash\<close> returns a fingerprint, computed over a first window of
  zeros that are not in the file. The error of a read is kept only until the next
  read, so only the last window's error is ever returned.
\<close>

theorem sampleHash_loses_read_error:
  "ReadAt bad_sector_file 1024 0 = ([], Some (read_error bad_sector_file))
   \<and> SmartHash bad_sector_file 524288 (512 * 1024) =
       Inr (XXH64 0 (le64 (XXH64 0 (replicate 1024 0 @ replicate 2048 1)) @ le64 524288))"
proof -
  have r0: "ReadAt bad_sector_file 1024 0 = ([], Some (read_error bad_sector_file))"
    by (simp add: ReadAt_def bad_sector_file_def find_upt_first)
  have r1: "ReadAt bad_sector_file 1024 262144 = (replicate 1024 1, None)"
    by (simp add: ReadAt_def bad_sector_file_def find_bad_sector_later)
  have r2: "ReadAt bad_sector_file 1024 523264 = (replicate 1024 1, None)"
    by (simp add: ReadAt_def bad_sector_file_def find_bad_sector_later)
  have r: "replicate 1024 (1::byte) @ replicate 1024 1 = replicate 2048 1"
    by (simp add: replicate_add [symmetric])
  have "SmartHash bad_sector_file 524288 (512 * 1024) =
       Inr (XXH64 0 (le64 (XXH64 0 (replicate 1024 0 @ replicate 2048 1)) @ le64 524288))"
    using r
    by (simp add: SmartHash_def sampleHash_unfold quo_def r0 r1 r2 read_error_def filled_def
        New64_def Write_def Sum64_def uint64_of_def)
  with r0 show ?thesis by simp
qed

section \<open>The walker: properties\<close>

subsection \<open>One turn of the loop\<close>

lemma enqueue_kept:
  "enqueue c p infos = map (\<lambda>i. \<lparr>Info = i, Context = p\<rparr>) (kept c p infos)"
  by (induction infos) (simp_all add: kept_def)

lemma walk_dir:
  assumes "IsDir (Info cur)" and "Open (Info cur) = Inr d" and "Readdir (Info cur) = Inr infos"
  shows "walk c rid (cur # Q) w =
         walk c rid (Q @ enqueue c (qpath cur) infos) (w\<lparr>calls := calls w @ [OpenDir (qpath cur)]\<rparr>)"
  using assms by (simp add: walk.simps qpath_def Let_def)

lemma walk_dir_fails:
  assumes "IsDir (Info cur)"
    and "Open (Info cur) = Inl e \<or> (\<exists>d. Open (Info cur) = Inr d) \<and> Readdir (Info cur) = Inl e"
  shows "walk c rid (cur # Q) w = (w\<lparr>calls := calls w @ [OpenDir (qpath cur)]\<rparr>, Some e)"
  using assms by (auto simp add: walk.simps qpath_def)

lemma walk_skip:
  assumes "\<not> IsDir (Info cur)"
    and "\<not> IsRegular (Mode (Info cur))
         \<or> includes' (Opts c) \<noteq> [] \<and> \<not> Match (includes' (Opts c)) (qpath cur)"
  shows "walk c rid (cur # Q) w = walk c rid Q w"
  using assms by (auto simp add: walk.simps qpath_def)

lemma walk_hash:
  assumes "\<not> IsDir (Info cur)" and "IsRegular (Mode (Info cur))"
    and "includes' (Opts c) = [] \<or> Match (includes' (Opts c)) (qpath cur)"
  shows "walk c rid (cur # Q) w =
         (case HashAndCatalog c rid cur w of
            (w', Some err) \<Rightarrow> (w', Some err)
          | (w', None) \<Rightarrow> walk c rid Q w')"
  using assms by (auto simp add: walk.simps qpath_def)

text \<open>
  The same four cases as an induction rule: a property of the walk holds when it
  holds for the empty queue and each turn of the loop keeps it.
\<close>

lemma walk_cases_induct [case_names Nil Dir DirFails Skip Hash]:
  assumes "\<And>w. P [] w"
    and "\<And>cur Q w d infos. IsDir (Info cur) \<Longrightarrow> Open (Info cur) = Inr d \<Longrightarrow>
           Readdir (Info cur) = Inr infos \<Longrightarrow>
           P (Q @ enqueue c (qpath cur) infos) (w\<lparr>calls := calls w @ [OpenDir (qpath cur)]\<rparr>) \<Longrightarrow>
           P (cur # Q) w"
    and "\<And>cur Q w e. IsDir (Info cur) \<Longrightarrow>
           Open (Info cur) = Inl e \<or> (\<exists>d. Open (Info cur) = Inr d) \<and> Readdir (Info cur) = Inl e \<Longrightarrow>
           P (cur # Q) w"
    and "\<And>cur Q w. \<not> IsDir (Info cur) \<Longrightarrow>
           \<not> IsRegular (Mode (Info cur))
             \<or> includes' (Opts c) \<noteq> [] \<and> \<not> Match (includes' (Opts c)) (qpath cur) \<Longrightarrow>
           P Q w \<Longrightarrow> P (cur # Q) w"
    and "\<And>cur Q w. \<not> IsDir (Info cur) \<Longrightarrow> IsRegular (Mode (Info cur)) \<Longrightarrow>
           includes' (Opts c) = [] \<or> Match (includes' (Opts c)) (qpath cur) \<Longrightarrow>
           (\<And>w'. HashAndCatalog c rid cur w = (w', None) \<Longrightarrow> P Q w') \<Longrightarrow> P (cur # Q) w"
  shows "P Q w"
proof -
  have "c' = c \<Longrightarrow> rid' = rid \<Longrightarrow> P Q w" for c' rid'
  proof (induction c' rid' Q w rule: walk.induct)
    case (1 c' rootId w)
    show ?case by (rule assms(1))
  next
    case (2 c' rootId cur fileQ w)
    note same = \<open>c' = c\<close> \<open>rootId = rid\<close>
    show ?case
    proof (cases "IsDir (Info cur)")
      case True
      show ?thesis
      proof (cases "Open (Info cur)")
        case (Inl e)
        with True show ?thesis by (intro assms(3)) auto
      next
        case (Inr d)
        show ?thesis
        proof (cases "Readdir (Info cur)")
          case (Inl e)
          with True Inr show ?thesis by (intro assms(3)) auto
        next
          case rd: (Inr infos)
          have "P (fileQ @ enqueue c (qpath cur) infos)
                  (w\<lparr>calls := calls w @ [OpenDir (qpath cur)]\<rparr>)"
            using "2.IH"(1) [OF refl True refl Inr rd] same by (simp add: qpath_def)
          with True Inr rd show ?thesis by (rule assms(2))
        qed
      qed
    next
      case False
      show ?thesis
      proof (cases "IsRegular (Mode (Info cur))")
        case nreg: False
        have "P fileQ w" using "2.IH"(2) [OF refl False] nreg same by simp
        with False nreg show ?thesis by (intro assms(4)) auto
      next
        case reg: True
        show ?thesis
        proof (cases "includes' (Opts c) \<noteq> [] \<and> \<not> Match (includes' (Opts c)) (qpath cur)")
          case True
          have "P fileQ w" using "2.IH"(3) [OF refl False] reg True same
            by (simp add: qpath_def)
          with False True show ?thesis by (intro assms(4)) auto
        next
          case inc: False
          have "P fileQ w'" if "HashAndCatalog c rid cur w = (w', None)" for w'
            using "2.IH"(4) [OF refl False _ _ _ refl, of w'] reg inc same that
            by (auto simp: qpath_def)
          with False reg inc show ?thesis by (intro assms(5)) auto
        qed
      qed
    qed
  qed
  then show ?thesis by simp
qed


subsection \<open>What \<open>HashAndCatalog\<close> changes\<close>

lemma HashAndCatalog_calls:
  "calls (fst (HashAndCatalog c rid cur w)) = calls w @ [OpenFile (qpath cur)]"
  by (simp add: HashAndCatalog_def qpath_def Let_def CatalogHash_def
      split: sum.splits error.splits option.splits prod.splits)

lemma HashAndCatalog_files:
  "\<exists>rs. files (Db (fst (HashAndCatalog c rid cur w))) = files (Db w) @ rs
        \<and> (\<forall>row \<in> set rs. path (snd row) = qpath cur)"
  by (auto simp add: HashAndCatalog_def qpath_def Let_def CatalogHash_def
      split: sum.splits error.splits option.splits prod.splits)

subsection \<open>Nothing excluded is fingerprinted or recorded\<close>

lemma kept_not_excluded:
  "i \<in> set (kept c p infos) \<Longrightarrow> \<not> Match (excludes (Opts c)) (Join p (Name i))"
  by (simp add: kept_def)

lemma enqueue_not_excluded:
  "q \<in> set (enqueue c p infos) \<Longrightarrow> \<not> Match (excludes (Opts c)) (qpath q)"
  by (auto simp add: enqueue_kept qpath_def kept_def)

lemma clean_run_refl: "clean_run c Q w w"
  by (simp add: clean_run_def)

lemma clean_run_dir_fails:
  "clean_run c (cur # Q) w (w\<lparr>calls := calls w @ [OpenDir (qpath cur)]\<rparr>)"
  unfolding clean_run_def
  by (intro exI [of _ "[OpenDir (qpath cur)]"] exI [of _ "[]"]) simp

lemma clean_run_dir:
  assumes "clean_run c (Q @ enqueue c (qpath cur) infos)
             (w\<lparr>calls := calls w @ [OpenDir (qpath cur)]\<rparr>) w'"
  shows "clean_run c (cur # Q) w w'"
proof -
  from assms obtain cs rs where
    *: "calls w' = (calls w @ [OpenDir (qpath cur)]) @ cs"
       "files (Db w') = files (Db w) @ rs"
       "\<forall>p. OpenFile p \<in> set cs \<longrightarrow> \<not> Match (excludes (Opts c)) p"
       "\<forall>p. OpenDir p \<in> set cs \<longrightarrow>
            p \<in> qpath ` set (Q @ enqueue c (qpath cur) infos) \<or> \<not> Match (excludes (Opts c)) p"
       "\<forall>row \<in> set rs. \<not> Match (excludes (Opts c)) (path (snd row))"
    unfolding clean_run_def by auto
  have "\<forall>p. OpenDir p \<in> set (OpenDir (qpath cur) # cs) \<longrightarrow>
            p \<in> qpath ` set (cur # Q) \<or> \<not> Match (excludes (Opts c)) p"
    using *(4) enqueue_not_excluded [of _ c "qpath cur" infos] by auto
  with * show ?thesis
    unfolding clean_run_def
    by (intro exI [of _ "OpenDir (qpath cur) # cs"] exI [of _ rs]) simp
qed

lemma clean_run_skip:
  assumes "clean_run c Q w w'"
  shows "clean_run c (cur # Q) w w'"
proof -
  from assms obtain cs rs where
    *: "calls w' = calls w @ cs"
       "files (Db w') = files (Db w) @ rs"
       "\<forall>p. OpenFile p \<in> set cs \<longrightarrow> \<not> Match (excludes (Opts c)) p"
       "\<forall>p. OpenDir p \<in> set cs \<longrightarrow> p \<in> qpath ` set Q \<or> \<not> Match (excludes (Opts c)) p"
       "\<forall>row \<in> set rs. \<not> Match (excludes (Opts c)) (path (snd row))"
    unfolding clean_run_def by auto
  then show ?thesis
    unfolding clean_run_def by (intro exI [of _ cs] exI [of _ rs]) auto
qed

lemma clean_run_hash:
  assumes "\<not> Match (excludes (Opts c)) (qpath cur)"
    and "HashAndCatalog c rid cur w = (w1, r)"
    and "clean_run c Q w1 w'"
  shows "clean_run c (cur # Q) w w'"
proof -
  from HashAndCatalog_calls [of c rid cur w] assms(2)
  have c1: "calls w1 = calls w @ [OpenFile (qpath cur)]" by simp
  from HashAndCatalog_files [of c rid cur w] assms(2) obtain rs1
    where f1: "files (Db w1) = files (Db w) @ rs1" "\<forall>row \<in> set rs1. path (snd row) = qpath cur"
    by auto
  from assms(3) obtain cs rs where
    *: "calls w' = calls w1 @ cs"
       "files (Db w') = files (Db w1) @ rs"
       "\<forall>p. OpenFile p \<in> set cs \<longrightarrow> \<not> Match (excludes (Opts c)) p"
       "\<forall>p. OpenDir p \<in> set cs \<longrightarrow> p \<in> qpath ` set Q \<or> \<not> Match (excludes (Opts c)) p"
       "\<forall>row \<in> set rs. \<not> Match (excludes (Opts c)) (path (snd row))"
    unfolding clean_run_def by auto
  with c1 f1 assms(1) show ?thesis
    unfolding clean_run_def
    by (intro exI [of _ "OpenFile (qpath cur) # cs"] exI [of _ "rs1 @ rs"]) auto
qed

lemma walk_excluded:
  "admissible c Q \<longrightarrow> clean_run c Q w (fst (walk c rid Q w))"
proof (induction Q w rule: walk_cases_induct [where c = c and rid = rid])
  case (Nil w)
  show ?case by (simp add: walk.simps clean_run_refl)
next
  case (Dir cur Q w d infos)
  show ?case
  proof
    assume "admissible c (cur # Q)"
    then have "admissible c (Q @ enqueue c (qpath cur) infos)"
      by (auto simp add: admissible_def list_all_iff enqueue_not_excluded)
    with Dir(4) show "clean_run c (cur # Q) w (fst (walk c rid (cur # Q) w))"
      by (simp add: walk_dir [OF Dir(1-3)] clean_run_dir)
  qed
next
  case (DirFails cur Q w e)
  show ?case
    by (simp add: walk_dir_fails [OF DirFails] clean_run_dir_fails)
next
  case (Skip cur Q w)
  then show ?case
    by (simp add: walk_skip [OF Skip(1,2)] admissible_def clean_run_skip)
next
  case (Hash cur Q w)
  show ?case
  proof
    assume adm: "admissible c (cur # Q)"
    with Hash(1) have ok: "\<not> Match (excludes (Opts c)) (qpath cur)" and admQ: "admissible c Q"
      by (simp_all add: admissible_def)
    obtain w1 r where hc: "HashAndCatalog c rid cur w = (w1, r)"
      by (cases "HashAndCatalog c rid cur w")
    show "clean_run c (cur # Q) w (fst (walk c rid (cur # Q) w))"
    proof (cases r)
      case (Some err)
      with hc have "fst (walk c rid (cur # Q) w) = w1"
        by (simp add: walk_hash [OF Hash(1-3)])
      with clean_run_hash [OF ok hc clean_run_refl] show ?thesis by simp
    next
      case None
      with hc have "fst (walk c rid (cur # Q) w) = fst (walk c rid Q w1)"
        by (simp add: walk_hash [OF Hash(1-3)])
      moreover have "clean_run c Q w1 (fst (walk c rid Q w1))"
        using Hash(4) [of w1] hc None admQ by simp
      ultimately show ?thesis using clean_run_hash [OF ok hc] by simp
    qed
  qed
qed

subsection \<open>The walk of a pruned tree\<close>

lemma prune_fields [simp]:
  "Name (prune c ctx n) = Name n" "Mode (prune c ctx n) = Mode n"
  "Size (prune c ctx n) = Size n" "ModTime (prune c ctx n) = ModTime n"
  "Open (prune c ctx n) = Open n"
  by (cases n; simp add: prune.simps)+

lemma prune_Readdir:
  "Readdir (prune c ctx n) =
     (case Readdir n of Inl e \<Rightarrow> Inl e
      | Inr infos \<Rightarrow> Inr (map (prune c (Join ctx (Name n))) (kept c (Join ctx (Name n)) infos)))"
  by (cases n) (simp add: prune.simps split: sum.splits)

lemma pruneq_fields [simp]:
  "Context (pruneq c q) = Context q" "qpath (pruneq c q) = qpath q"
  "IsDir (Info (pruneq c q)) = IsDir (Info q)" "Mode (Info (pruneq c q)) = Mode (Info q)"
  "Open (Info (pruneq c q)) = Open (Info q)"
  by (simp_all add: pruneq_def qpath_def IsDir_def)

lemma kept_map_prune:
  "kept c p (map (prune c p) infos) = map (prune c p) (kept c p infos)"
  by (induction infos) (simp_all add: kept_def)

lemma kept_idem: "kept c p (kept c p infos) = kept c p infos"
  by (simp add: kept_def)

lemma enqueue_pruned:
  "enqueue c p (map (prune c p) (kept c p infos)) = map (pruneq c) (enqueue c p infos)"
  by (simp add: enqueue_kept kept_map_prune kept_idem pruneq_def)

lemma HashAndCatalog_pruneq:
  "HashAndCatalog c rid (pruneq c cur) w = HashAndCatalog c rid cur w"
  by (simp add: HashAndCatalog_def pruneq_def Let_def split: sum.splits)

lemma walk_pruned:
  "walk c rid (map (pruneq c) Q) w = walk c rid Q w"
proof (induction Q w rule: walk_cases_induct [where c = c and rid = rid])
  case (Nil w)
  show ?case by simp
next
  case (Dir cur Q w d infos)
  have rd: "Readdir (Info (pruneq c cur)) = Inr (map (prune c (qpath cur)) (kept c (qpath cur) infos))"
    using Dir(3) by (simp add: pruneq_def prune_Readdir qpath_def)
  have "walk c rid (map (pruneq c) (cur # Q)) w =
          walk c rid (map (pruneq c) (Q @ enqueue c (qpath cur) infos))
            (w\<lparr>calls := calls w @ [OpenDir (qpath cur)]\<rparr>)"
    using walk_dir [of "pruneq c cur" d _ c rid "map (pruneq c) Q" w, OF _ _ rd] Dir(1,2)
    by (simp add: enqueue_pruned)
  with Dir(4) show ?case by (simp add: walk_dir [OF Dir(1-3)])
next
  case (DirFails cur Q w e)
  have "Open (Info (pruneq c cur)) = Inl e
      \<or> (\<exists>d. Open (Info (pruneq c cur)) = Inr d) \<and> Readdir (Info (pruneq c cur)) = Inl e"
    using DirFails(2) by (auto simp add: pruneq_def prune_Readdir)
  with DirFails(1) show ?case
    using walk_dir_fails [of "pruneq c cur" e c rid "map (pruneq c) Q" w]
    by (simp add: walk_dir_fails [OF DirFails])
next
  case (Skip cur Q w)
  then show ?case
    using walk_skip [of "pruneq c cur" c rid "map (pruneq c) Q" w]
    by (simp add: walk_skip [OF Skip(1,2)])
next
  case (Hash cur Q w)
  then show ?case
    using walk_hash [of "pruneq c cur" c rid "map (pruneq c) Q" w]
    by (auto simp add: walk_hash [OF Hash(1-3)] HashAndCatalog_pruneq split: prod.splits option.splits)
qed


subsection \<open>The calls of a walk that succeeds\<close>

lemma visits_dir:
  assumes "IsDir n" and "Readdir n = Inr infos"
  shows "visits c ctx n =
         OpenDir (Join ctx (Name n)) #
         concat (map (visits c (Join ctx (Name n))) (kept c (Join ctx (Name n)) infos))"
  using assms by (cases n) (simp add: visits.simps IsDir_def Let_def)

lemma visits_skip:
  assumes "\<not> IsDir n"
    and "\<not> IsRegular (Mode n)
         \<or> includes' (Opts c) \<noteq> [] \<and> \<not> Match (includes' (Opts c)) (Join ctx (Name n))"
  shows "visits c ctx n = []"
  using assms by (cases n) (auto simp add: visits.simps IsDir_def IsRegular_def Let_def)

lemma visits_hash:
  assumes "\<not> IsDir n" and "IsRegular (Mode n)"
    and "includes' (Opts c) = [] \<or> Match (includes' (Opts c)) (Join ctx (Name n))"
  shows "visits c ctx n = [OpenFile (Join ctx (Name n))]"
  using assms by (cases n) (auto simp add: visits.simps IsDir_def IsRegular_def Let_def)

lemma visits_enqueue:
  "(\<Sum>q\<leftarrow>enqueue c p infos. mset (visits c (Context q) (Info q))) =
   mset (concat (map (visits c p) (kept c p infos)))"
  by (simp add: enqueue_kept mset_concat comp_def)

lemma walk_visits:
  "snd (walk c rid Q w) = None \<longrightarrow>
     mset (calls (fst (walk c rid Q w))) =
     mset (calls w) + (\<Sum>q\<leftarrow>Q. mset (visits c (Context q) (Info q)))"
proof (induction Q w rule: walk_cases_induct [where c = c and rid = rid])
  case (Nil w)
  show ?case by (simp add: walk.simps)
next
  case (Dir cur Q w d infos)
  then show ?case
    by (simp add: walk_dir [OF Dir(1-3)] visits_dir [OF Dir(1,3)] visits_enqueue qpath_def)
next
  case (DirFails cur Q w e)
  show ?case by (simp add: walk_dir_fails [OF DirFails])
next
  case (Skip cur Q w)
  then show ?case
    by (simp add: walk_skip [OF Skip(1,2)] visits_skip [OF Skip(1)] qpath_def)
next
  case (Hash cur Q w)
  obtain w' r where hc: "HashAndCatalog c rid cur w = (w', r)"
    by (cases "HashAndCatalog c rid cur w")
  from HashAndCatalog_calls [of c rid cur w] hc
  have c1: "calls w' = calls w @ [OpenFile (qpath cur)]" by simp
  show ?case
  proof (cases r)
    case (Some err)
    with hc show ?thesis by (simp add: walk_hash [OF Hash(1-3)])
  next
    case None
    with Hash(4) [of w'] hc c1 Hash(1-3) show ?thesis
      by (simp add: walk_hash [OF Hash(1-3)] visits_hash qpath_def)
  qed
qed


subsection \<open>From the walk to \<open>Run\<close>\<close>

lemma EnsureRootId_files: "files (fst (EnsureRootId d r)) = files d"
  by (simp add: EnsureRootId_def Let_def split: option.splits)

lemma Run_walk:
  assumes "IsDir rootInfo" and "EnsureRootId (Db w) (root (Opts c)) = (d, Inr rid)"
  shows "Run c (Inr rootInfo) w =
         walk c rid [\<lparr>Info = rootInfo, Context = Dir (root (Opts c))\<rparr>] (w\<lparr>Db := d\<rparr>)"
  using assms by (simp add: Run_def Let_def)

lemma clean_run_same_start:
  assumes "calls w0 = calls w" and "files (Db w0) = files (Db w)" and "clean_run c Q w0 w'"
  shows "clean_run c Q w w'"
  using assms by (simp add: clean_run_def)

lemma clean_run_weaken:
  assumes "clean_run c [] w w'"
  shows "clean_run c Q w w'"
  using assms unfolding clean_run_def by fastforce

lemma Run_clean:
  "clean_run c (case stat of Inl e \<Rightarrow> []
                | Inr rootInfo \<Rightarrow> [\<lparr>Info = rootInfo, Context = Dir (root (Opts c))\<rparr>])
     w (fst (Run c stat w))"
proof (cases stat)
  case (Inl e)
  then show ?thesis by (simp add: Run_def clean_run_refl)
next
  case (Inr rootInfo)
  show ?thesis
  proof (cases "IsDir rootInfo")
    case False
    with Inr show ?thesis by (simp add: Run_def clean_run_refl)
  next
    case True
    obtain d res where e: "EnsureRootId (Db w) (root (Opts c)) = (d, res)"
      by (cases "EnsureRootId (Db w) (root (Opts c))")
    from EnsureRootId_files [of "Db w" "root (Opts c)"] e
    have fd: "files d = files (Db w)" by simp
    show ?thesis
    proof (cases res)
      case (Inl err)
      have "clean_run c [] (w\<lparr>Db := d\<rparr>) (w\<lparr>Db := d\<rparr>)" by (rule clean_run_refl)
      then have "clean_run c [] w (w\<lparr>Db := d\<rparr>)"
        by (rule clean_run_same_start [rotated 2]) (simp_all add: fd)
      then have "clean_run c [\<lparr>Info = rootInfo, Context = Dir (root (Opts c))\<rparr>] w (w\<lparr>Db := d\<rparr>)"
        by (rule clean_run_weaken)
      with Inr True e Inl show ?thesis by (simp add: Run_def Let_def)
    next
      case res: (Inr rid)
      let ?Q = "[\<lparr>Info = rootInfo, Context = Dir (root (Opts c))\<rparr>]"
      have "admissible c ?Q" using True by (simp add: admissible_def)
      with walk_excluded [of c ?Q "w\<lparr>Db := d\<rparr>" rid]
      have "clean_run c ?Q (w\<lparr>Db := d\<rparr>) (fst (walk c rid ?Q (w\<lparr>Db := d\<rparr>)))" by simp
      then have "clean_run c ?Q w (fst (walk c rid ?Q (w\<lparr>Db := d\<rparr>)))"
        by (rule clean_run_same_start [rotated 2]) (simp_all add: fd)
      with Inr True e res show ?thesis by (simp add: Run_def Let_def)
    qed
  qed
qed

lemma clean_run_new:
  assumes "clean_run c Q w w'"
  shows "(\<forall>p. OpenFile p \<in> set (new_calls w w') \<longrightarrow> \<not> Match (excludes (Opts c)) p)
       \<and> (\<forall>p. OpenDir p \<in> set (new_calls w w') \<longrightarrow>
              p \<in> qpath ` set Q \<or> \<not> Match (excludes (Opts c)) p)
       \<and> (\<forall>p \<in> set (new_paths w w'). \<not> Match (excludes (Opts c)) p)
       \<and> calls w' = calls w @ new_calls w w'"
  using assms unfolding clean_run_def new_calls_def new_paths_def by auto

subsection \<open>Evaluating the examples\<close>

lemma example_paths:
  "Dir ''/root'' = ''/''"
  "Join ''/'' ''root'' = ''/root''"
  "Join ''/root'' ''a.txt'' = ''/root/a.txt''"
  "Join ''/root'' ''b.txt'' = ''/root/b.txt''"
  "Join ''/root'' ''b.bin'' = ''/root/b.bin''"
  "Join ''/root'' ''skip.txt'' = ''/root/skip.txt''"
  "Join ''/root'' ''skip'' = ''/root/skip''"
  "Join ''/root'' ''sub'' = ''/root/sub''"
  "Join ''/root'' ''big'' = ''/root/big''"
  "Join ''/root/sub'' ''c.txt'' = ''/root/sub/c.txt''"
  "Join ''/root/skip'' ''b.txt'' = ''/root/skip/b.txt''"
  by (simp_all add: Dir_def Join_def Clean_def)

lemmas example_defs =
  options_def directory_def plain_file_def locked_file_def empty_world_def ten_bytes_def
  item_def exactly_def

lemmas run_defs =
  Run_def EnsureRootId_def next_id_def IsDir_def IsRegular_def walk.simps HashAndCatalog_def
  SmartHash_def fullHash_def Copy_def CatalogHash_def Let_def new_calls_def new_paths_def
  qpath_def

subsection \<open>The claims about the walk\<close>

text \<open>
  C4. Exclusion overrides inclusion. Whatever the inclusion patterns are, a run
  never opens a file for fingerprinting under a path that an exclusion pattern
  matches, and never writes a row with such a path: the calls and the rows that
  \<open>Run\<close> adds contain none.
\<close>

theorem exclusion_overrides_inclusion:
  assumes "Match (excludes (Opts c)) p"
  shows "OpenFile p \<notin> set (new_calls w (fst (Run c stat w)))
       \<and> p \<notin> set (new_paths w (fst (Run c stat w)))"
  using clean_run_new [OF Run_clean [of c stat w]] assms by blast

theorem exclusion_overrides_inclusion_witness:
  "Match (excludes (Opts (options ''/root'' [literal ''skip''] [literal ''txt''])))
     ''/root/skip.txt''
   \<and> Match (includes' (Opts (options ''/root'' [literal ''skip''] [literal ''txt''])))
       ''/root/skip.txt''
   \<and> OpenFile ''/root/skip.txt'' \<notin> set (new_calls empty_world
        (fst (Run (options ''/root'' [literal ''skip''] [literal ''txt''])
               (Inr both_tree) empty_world)))
   \<and> ''/root/skip.txt'' \<notin> set (new_paths empty_world
        (fst (Run (options ''/root'' [literal ''skip''] [literal ''txt''])
               (Inr both_tree) empty_world)))
   \<and> new_calls empty_world
        (fst (Run (options ''/root'' [literal ''skip''] [literal ''txt''])
               (Inr both_tree) empty_world))
       = [OpenDir ''/root'', OpenFile ''/root/a.txt'']
   \<and> new_paths empty_world
        (fst (Run (options ''/root'' [literal ''skip''] [literal ''txt''])
               (Inr both_tree) empty_world))
       = [''/root/a.txt'']"
proof -
  have m: "Match (excludes (Opts (options ''/root'' [literal ''skip''] [literal ''txt''])))
     ''/root/skip.txt''"
    by (simp add: options_def)
  have r: "new_calls empty_world
        (fst (Run (options ''/root'' [literal ''skip''] [literal ''txt''])
               (Inr both_tree) empty_world))
       = [OpenDir ''/root'', OpenFile ''/root/a.txt'']
     \<and> new_paths empty_world
        (fst (Run (options ''/root'' [literal ''skip''] [literal ''txt''])
               (Inr both_tree) empty_world))
       = [''/root/a.txt'']"
    by (simp add: run_defs example_defs both_tree_def example_paths)
  from exclusion_overrides_inclusion [OF m, of empty_world "Inr both_tree"] m r
  show ?thesis by (simp add: options_def)
qed

text \<open>
  C5, amended for the root. Excluding a directory prunes everything below it. An
  entry whose path is excluded is never put into the queue; a directory with an
  excluded path, other than the root, is never opened; and the run on a tree is the
  run on the tree with all excluded entries and everything below them deleted: the
  same calls, the same rows, the same result. So nothing below an excluded directory
  is opened, fingerprinted or recorded, whatever the inclusion patterns say about it.
\<close>

theorem excluded_directory_pruned:
  assumes "Match (excludes (Opts c)) p"
    and "p \<noteq> Join (Dir (root (Opts c))) (Name rootInfo)"
  shows "(\<forall>ctx infos. p \<notin> qpath ` set (enqueue c ctx infos))
       \<and> OpenDir p \<notin> set (new_calls w (fst (Run c (Inr rootInfo) w)))
       \<and> Run c (Inr (prune c (Dir (root (Opts c))) rootInfo)) w = Run c (Inr rootInfo) w"
proof -
  have 1: "\<forall>ctx infos. p \<notin> qpath ` set (enqueue c ctx infos)"
    using assms(1) enqueue_not_excluded by blast
  have 2: "OpenDir p \<notin> set (new_calls w (fst (Run c (Inr rootInfo) w)))"
    using clean_run_new [OF Run_clean [of c "Inr rootInfo" w]] assms
    by (auto simp add: qpath_def)
  let ?r = "Dir (root (Opts c))"
  have "walk c rid [\<lparr>Info = prune c ?r rootInfo, Context = ?r\<rparr>] w0 =
        walk c rid [\<lparr>Info = rootInfo, Context = ?r\<rparr>] w0" for rid w0
    using walk_pruned [of c rid "[\<lparr>Info = rootInfo, Context = ?r\<rparr>]" w0]
    by (simp add: pruneq_def)
  then have 3: "Run c (Inr (prune c ?r rootInfo)) w = Run c (Inr rootInfo) w"
    by (simp add: Run_def Let_def IsDir_def)
  from 1 2 3 show ?thesis by simp
qed

theorem excluded_directory_pruned_witness:
  "Match (excludes (Opts (options ''/root'' [literal ''skip''] [literal ''txt'']))) ''/root/skip''
   \<and> ''/root/skip'' \<noteq> Join (Dir ''/root'') (Name skip_tree)
   \<and> Match (includes' (Opts (options ''/root'' [literal ''skip''] [literal ''txt''])))
        ''/root/skip/b.txt''
   \<and> OpenDir ''/root/skip'' \<notin> set (new_calls empty_world
        (fst (Run (options ''/root'' [literal ''skip''] [literal ''txt''])
               (Inr skip_tree) empty_world)))
   \<and> Run (options ''/root'' [literal ''skip''] [literal ''txt''])
        (Inr (directory [] ''root'' [plain_file ''/root'' ''a.txt'' ten_bytes])) empty_world
     = Run (options ''/root'' [literal ''skip''] [literal ''txt'']) (Inr skip_tree) empty_world
   \<and> new_calls empty_world
        (fst (Run (options ''/root'' [literal ''skip''] [literal ''txt''])
               (Inr skip_tree) empty_world))
     = [OpenDir ''/root'', OpenFile ''/root/a.txt'']
   \<and> new_paths empty_world
        (fst (Run (options ''/root'' [literal ''skip''] [literal ''txt''])
               (Inr skip_tree) empty_world))
     = [''/root/a.txt'']"
proof -
  let ?c = "options ''/root'' [literal ''skip''] [literal ''txt'']"
  have m: "Match (excludes (Opts ?c)) ''/root/skip''"
    by (simp add: options_def)
  have n: "''/root/skip'' \<noteq> Join (Dir (root (Opts ?c))) (Name skip_tree)"
    by (simp add: options_def skip_tree_def directory_def example_paths)
  have i: "Match (includes' (Opts ?c)) ''/root/skip/b.txt''"
    by (simp add: options_def)
  have p: "prune ?c (Dir (root (Opts ?c))) skip_tree =
           directory [] ''root'' [plain_file ''/root'' ''a.txt'' ten_bytes]"
    by (simp add: skip_tree_def example_defs prune.simps kept_def example_paths)
  have r: "new_calls empty_world (fst (Run ?c (Inr skip_tree) empty_world))
             = [OpenDir ''/root'', OpenFile ''/root/a.txt'']
         \<and> new_paths empty_world (fst (Run ?c (Inr skip_tree) empty_world))
             = [''/root/a.txt'']"
    by (simp add: run_defs example_defs skip_tree_def example_paths)
  from excluded_directory_pruned [OF m n, of empty_world] m n i p r
  show ?thesis by (simp add: options_def)
qed

text \<open>
  C5 as it is stated, for every directory, fails at the root: a root whose path
  matches an exclusion pattern is opened all the same, and the files below it are
  fingerprinted and recorded.
\<close>

theorem excluded_root_is_expanded:
  "Match (excludes (Opts (options ''/root'' [exactly ''/root''] [])))
     (Join (Dir ''/root'') (Name txt_tree))
   \<and> IsDir txt_tree
   \<and> new_calls empty_world
        (fst (Run (options ''/root'' [exactly ''/root''] []) (Inr txt_tree) empty_world))
     = [OpenDir ''/root'', OpenFile ''/root/a.txt'', OpenFile ''/root/b.bin'',
        OpenDir ''/root/sub'', OpenFile ''/root/sub/c.txt'']
   \<and> new_paths empty_world
        (fst (Run (options ''/root'' [exactly ''/root''] []) (Inr txt_tree) empty_world))
     = [''/root/a.txt'', ''/root/b.bin'', ''/root/sub/c.txt'']"
  by (simp add: run_defs example_defs txt_tree_def example_paths)

text \<open>
  C6. A regular file that passes the filters and whose \<^verbatim>\<open>os.Open\<close> fails with
  ``permission denied'': \<open>HashAndCatalog\<close> returns no error and leaves the database
  as it is, and the walk goes on with the rest of the queue.
\<close>

theorem permission_denied_is_skipped:
  assumes "\<not> IsDir (Info cur)" and "IsRegular (Mode (Info cur))"
    and "includes' (Opts c) = [] \<or> Match (includes' (Opts c)) (qpath cur)"
    and "Open (Info cur) = Inl (PathError op p ''permission denied'')"
  shows "HashAndCatalog c rid cur w = (w\<lparr>calls := calls w @ [OpenFile (qpath cur)]\<rparr>, None)
       \<and> walk c rid (cur # Q) w = walk c rid Q (w\<lparr>calls := calls w @ [OpenFile (qpath cur)]\<rparr>)"
proof -
  have "HashAndCatalog c rid cur w = (w\<lparr>calls := calls w @ [OpenFile (qpath cur)]\<rparr>, None)"
    using assms(4) by (simp add: HashAndCatalog_def qpath_def Let_def)
  then show ?thesis by (simp add: walk_hash [OF assms(1-3)])
qed

theorem permission_denied_is_skipped_witness:
  "\<not> IsDir (Info (item ''/root'' (locked_file ''/root'' ''a.txt'')))
   \<and> IsRegular (Mode (Info (item ''/root'' (locked_file ''/root'' ''a.txt''))))
   \<and> includes' (Opts (options ''/root'' [] [])) = []
   \<and> Open (Info (item ''/root'' (locked_file ''/root'' ''a.txt'')))
       = Inl (PathError ''open'' ''/root/a.txt'' ''permission denied'')
   \<and> walk (options ''/root'' [] []) 1
        [item ''/root'' (locked_file ''/root'' ''a.txt''),
         item ''/root'' (plain_file ''/root'' ''b.txt'' ten_bytes)] empty_world
     = walk (options ''/root'' [] []) 1
        [item ''/root'' (plain_file ''/root'' ''b.txt'' ten_bytes)]
        (empty_world\<lparr>calls := [OpenFile ''/root/a.txt'']\<rparr>)
   \<and> snd (walk (options ''/root'' [] []) 1
        [item ''/root'' (locked_file ''/root'' ''a.txt''),
         item ''/root'' (plain_file ''/root'' ''b.txt'' ten_bytes)] empty_world) = None
   \<and> new_paths empty_world (fst (walk (options ''/root'' [] []) 1
        [item ''/root'' (locked_file ''/root'' ''a.txt''),
         item ''/root'' (plain_file ''/root'' ''b.txt'' ten_bytes)] empty_world))
     = [''/root/b.txt'']"
proof -
  let ?c = "options ''/root'' [] []"
  let ?a = "item ''/root'' (locked_file ''/root'' ''a.txt'')"
  let ?b = "item ''/root'' (plain_file ''/root'' ''b.txt'' ten_bytes)"
  have h1: "\<not> IsDir (Info ?a)" and h2: "IsRegular (Mode (Info ?a))"
    and h3: "includes' (Opts ?c) = [] \<or> Match (includes' (Opts ?c)) (qpath ?a)"
    and h4: "Open (Info ?a) = Inl (PathError ''open'' ''/root/a.txt'' ''permission denied'')"
    by (simp_all add: example_defs IsDir_def IsRegular_def)
  have q: "qpath ?a = ''/root/a.txt''"
    by (simp add: qpath_def example_defs example_paths)
  have r: "snd (walk ?c 1 [?b] (empty_world\<lparr>calls := [OpenFile ''/root/a.txt'']\<rparr>)) = None
         \<and> new_paths empty_world
             (fst (walk ?c 1 [?b] (empty_world\<lparr>calls := [OpenFile ''/root/a.txt'']\<rparr>)))
           = [''/root/b.txt'']"
    by (simp add: run_defs example_defs example_paths)
  have e: "calls empty_world = []" by (simp add: empty_world_def)
  from permission_denied_is_skipped [OF h1 h2 h3 h4, of 1 empty_world "[?b]"] h1 h2 h4 q r e
  show ?thesis by (simp add: options_def)
qed

lemma HashAndCatalog_hash_error:
  assumes "Open (Info cur) = Inr f" and "SmartHash f (Size (Info cur)) (512 * 1024) = Inl e"
  shows "HashAndCatalog c rid cur w =
         (w\<lparr>calls := calls w @ [OpenFile (qpath cur)]\<rparr>,
          Some (ErrorString (qpath cur @ '': '' @ Error e)))"
  using assms by (simp add: HashAndCatalog_def qpath_def Let_def)

text \<open>
  C7. In \<open>sampleHash\<close>, \<^verbatim>\<open>io.EOF\<close> from the read of the first or of the second
  window gives the error ``Unexpected EOF!''; \<^verbatim>\<open>io.EOF\<close> from the read of the third
  window, after two reads that did not give it, is let pass and the sixteen bytes are
  returned, the short window filled up with zeros. In the walk, a file at or above
  the threshold whose first or second window gives \<^verbatim>\<open>io.EOF\<close> ends the walk at once
  with that error under the file's path; the rest of the queue is not looked at.
\<close>

theorem truncated_file:
  "(snd (ReadAt f 1024 0) = Some EOF \<or> snd (ReadAt f 1024 (quo sz 2)) = Some EOF
      \<longrightarrow> sampleHash f sz = Inl (ErrorString ''Unexpected EOF!''))
   \<and> (snd (ReadAt f 1024 0) \<noteq> Some EOF \<and> snd (ReadAt f 1024 (quo sz 2)) \<noteq> Some EOF
        \<and> snd (ReadAt f 1024 (sz - 1024)) = Some EOF
      \<longrightarrow> sampleHash f sz =
            Inr (le64 (XXH64 0 (filled 1024 (fst (ReadAt f 1024 0))
                                 @ filled 1024 (fst (ReadAt f 1024 (quo sz 2)))
                                 @ filled 1024 (fst (ReadAt f 1024 (sz - 1024)))))
                 @ le64 (uint64_of sz)))
   \<and> (\<not> IsDir (Info cur) \<and> IsRegular (Mode (Info cur))
        \<and> (includes' (Opts c) = [] \<or> Match (includes' (Opts c)) (qpath cur))
        \<and> Open (Info cur) = Inr f \<and> Size (Info cur) = sz \<and> 512 * 1024 \<le> sz
        \<and> (snd (ReadAt f 1024 0) = Some EOF \<or> snd (ReadAt f 1024 (quo sz 2)) = Some EOF)
      \<longrightarrow> walk c rid (cur # Q) w =
            (w\<lparr>calls := calls w @ [OpenFile (qpath cur)]\<rparr>,
             Some (ErrorString (qpath cur @ '': Unexpected EOF!''))))"
proof -
  have 1: "sampleHash f sz = Inl (ErrorString ''Unexpected EOF!'')"
    if "snd (ReadAt f 1024 0) = Some EOF \<or> snd (ReadAt f 1024 (quo sz 2)) = Some EOF"
    using that by (auto simp add: sampleHash_unfold split: prod.splits)
  have 2: "sampleHash f sz =
            Inr (le64 (XXH64 0 (filled 1024 (fst (ReadAt f 1024 0))
                                 @ filled 1024 (fst (ReadAt f 1024 (quo sz 2)))
                                 @ filled 1024 (fst (ReadAt f 1024 (sz - 1024)))))
                 @ le64 (uint64_of sz))"
    if "snd (ReadAt f 1024 0) \<noteq> Some EOF" "snd (ReadAt f 1024 (quo sz 2)) \<noteq> Some EOF"
      "snd (ReadAt f 1024 (sz - 1024)) = Some EOF"
    using that by (auto simp add: sampleHash_unfold split: prod.splits)
  have 3: "walk c rid (cur # Q) w =
            (w\<lparr>calls := calls w @ [OpenFile (qpath cur)]\<rparr>,
             Some (ErrorString (qpath cur @ '': Unexpected EOF!'')))"
    if h: "\<not> IsDir (Info cur)" "IsRegular (Mode (Info cur))"
        "includes' (Opts c) = [] \<or> Match (includes' (Opts c)) (qpath cur)"
      and o: "Open (Info cur) = Inr f" "Size (Info cur) = sz" "512 * 1024 \<le> sz"
      and e: "snd (ReadAt f 1024 0) = Some EOF \<or> snd (ReadAt f 1024 (quo sz 2)) = Some EOF"
  proof -
    have "SmartHash f (Size (Info cur)) (512 * 1024) = Inl (ErrorString ''Unexpected EOF!'')"
      using o 1 [OF e] by (simp add: SmartHash_def)
    from HashAndCatalog_hash_error [OF o(1) this, of c rid w] show ?thesis
      by (simp add: walk_hash [OF h])
  qed
  from 1 2 3 show ?thesis by blast
qed

lemma find_never: "find (\<lambda>p. False) xs = None"
  by (simp add: find_None_iff)

theorem truncated_file_witness:
  "snd (ReadAt short_file 1024 0) = Some EOF
   \<and> sampleHash short_file 524288 = Inl (ErrorString ''Unexpected EOF!'')
   \<and> snd (ReadAt tail_short_file 1024 0) \<noteq> Some EOF
   \<and> snd (ReadAt tail_short_file 1024 (quo 524288 2)) \<noteq> Some EOF
   \<and> snd (ReadAt tail_short_file 1024 (524288 - 1024)) = Some EOF
   \<and> sampleHash tail_short_file 524288 =
       Inr (le64 (XXH64 0 (replicate 2784 7 @ replicate 288 0)) @ le64 524288)
   \<and> \<not> IsDir (Info short_item) \<and> IsRegular (Mode (Info short_item))
   \<and> includes' (Opts (options ''/root'' [] [])) = []
   \<and> Open (Info short_item) = Inr short_file \<and> Size (Info short_item) = 524288
   \<and> walk (options ''/root'' [] []) 1
        [short_item, item ''/root'' (plain_file ''/root'' ''b.txt'' ten_bytes)] empty_world
     = (empty_world\<lparr>calls := [OpenFile ''/root/big'']\<rparr>,
        Some (ErrorString ''/root/big: Unexpected EOF!''))"
proof -
  let ?c = "options ''/root'' [] []"
  let ?b = "item ''/root'' (plain_file ''/root'' ''b.txt'' ten_bytes)"
  have s0: "snd (ReadAt short_file 1024 0) = Some EOF"
    by (simp add: ReadAt_def short_file_def find_never Let_def)
  have t0: "ReadAt tail_short_file 1024 0 = (replicate 1024 7, None)"
    by (simp add: ReadAt_def tail_short_file_def find_never Let_def)
  have t1: "ReadAt tail_short_file 1024 (quo 524288 2) = (replicate 1024 7, None)"
    by (simp add: ReadAt_def tail_short_file_def find_never Let_def quo_def)
  have t2: "ReadAt tail_short_file 1024 (524288 - 1024) = (replicate 736 7, Some EOF)"
    by (simp add: ReadAt_def tail_short_file_def find_never Let_def)
  have r: "replicate 1024 (7::byte) @ replicate 1024 7 @ replicate 736 7 @ replicate 288 0
           = replicate 2784 7 @ replicate 288 0"
    by (simp add: replicate_add [symmetric] flip: append_assoc)
  have h: "\<not> IsDir (Info short_item)" "IsRegular (Mode (Info short_item))"
    "includes' (Opts ?c) = []" "Open (Info short_item) = Inr short_file"
    "Size (Info short_item) = 524288"
    by (simp_all add: short_item_def IsDir_def IsRegular_def options_def)
  have q: "qpath short_item = ''/root/big''"
    by (simp add: qpath_def short_item_def example_paths)
  have e: "calls empty_world = []" by (simp add: empty_world_def)
  from truncated_file [of short_file 524288 short_item ?c 1 "[?b]" empty_world]
    truncated_file [of tail_short_file 524288 short_item ?c 1 "[?b]" empty_world]
    s0 t0 t1 t2 h q e
  show ?thesis by (simp add: filled_def uint64_of_def r)
qed

text \<open>
  C9. When the fingerprint has been computed and the database refuses the insert,
  \<open>CatalogHash\<close> returns the error, and \<open>HashAndCatalog\<close> drops it: it returns no
  error, the database is as before, and the walk goes on with the rest of the queue.
\<close>

theorem catalog_error_is_discarded:
  assumes "Open (Info cur) = Inr f"
    and "SmartHash f (Size (Info cur)) (512 * 1024) = Inr h"
    and "refuses (Db w) (InsertFile rid (hex (unat h)) (qpath cur) (ModTime (Info cur))) = Some err"
  shows "CatalogHash (Db w) rid h (qpath cur) (ModTime (Info cur)) = (Db w, Inl err)
       \<and> HashAndCatalog c rid cur w = (w\<lparr>calls := calls w @ [OpenFile (qpath cur)]\<rparr>, None)
       \<and> (\<not> IsDir (Info cur) \<and> IsRegular (Mode (Info cur))
            \<and> (includes' (Opts c) = [] \<or> Match (includes' (Opts c)) (qpath cur))
          \<longrightarrow> walk c rid (cur # Q) w =
                walk c rid Q (w\<lparr>calls := calls w @ [OpenFile (qpath cur)]\<rparr>))"
proof -
  have 1: "CatalogHash (Db w) rid h (qpath cur) (ModTime (Info cur)) = (Db w, Inl err)"
    using assms(3) by (simp add: CatalogHash_def)
  have 2: "HashAndCatalog c rid cur w = (w\<lparr>calls := calls w @ [OpenFile (qpath cur)]\<rparr>, None)"
    using assms(1,2) 1 by (simp add: HashAndCatalog_def Let_def qpath_def)
  have 3: "walk c rid (cur # Q) w =
           walk c rid Q (w\<lparr>calls := calls w @ [OpenFile (qpath cur)]\<rparr>)"
    if "\<not> IsDir (Info cur)" "IsRegular (Mode (Info cur))"
       "includes' (Opts c) = [] \<or> Match (includes' (Opts c)) (qpath cur)"
    using 2 by (simp add: walk_hash [OF that])
  from 1 2 3 show ?thesis by blast
qed

theorem catalog_error_is_discarded_witness:
  "Open (Info (item ''/root'' (plain_file ''/root'' ''a.txt'' ten_bytes)))
     = Inr \<lparr>name = ''/root/a.txt'', contents = ten_bytes, bad = (\<lambda>p. False)\<rparr>
   \<and> SmartHash \<lparr>name = ''/root/a.txt'', contents = ten_bytes, bad = (\<lambda>p. False)\<rparr>
        (Size (Info (item ''/root'' (plain_file ''/root'' ''a.txt'' ten_bytes)))) (512 * 1024)
     = Inr (XXH64 0 (le64 (XXH64 0 ten_bytes) @ le64 10))
   \<and> refuses (Db locked_world)
        (InsertFile 1 (hex (unat (XXH64 0 (le64 (XXH64 0 ten_bytes) @ le64 10))))
           ''/root/a.txt'' 0)
     = Some (DriverError ''database is locked'')
   \<and> HashAndCatalog (options ''/root'' [] []) 1
        (item ''/root'' (plain_file ''/root'' ''a.txt'' ten_bytes)) locked_world
     = (locked_world\<lparr>calls := [OpenFile ''/root/a.txt'']\<rparr>, None)
   \<and> walk (options ''/root'' [] []) 1
        [item ''/root'' (plain_file ''/root'' ''a.txt'' ten_bytes)] locked_world
     = (locked_world\<lparr>calls := [OpenFile ''/root/a.txt'']\<rparr>, None)"
proof -
  let ?c = "options ''/root'' [] []"
  let ?a = "item ''/root'' (plain_file ''/root'' ''a.txt'' ten_bytes)"
  let ?f = "\<lparr>name = ''/root/a.txt'', contents = ten_bytes, bad = (\<lambda>p. False)\<rparr>"
  let ?h = "XXH64 0 (le64 (XXH64 0 ten_bytes) @ le64 10)"
  have o: "Open (Info ?a) = Inr ?f"
    by (simp add: item_def plain_file_def)
  have i: "intact ?f" by (simp add: intact_def list_all_iff)
  have s: "SmartHash ?f (Size (Info ?a)) (512 * 1024) = Inr ?h"
    using fingerprint_below_threshold [of 10 ?f] i
    by (simp add: item_def plain_file_def ten_bytes_def uint64_of_def)
  have q: "qpath ?a = ''/root/a.txt''"
    by (simp add: qpath_def item_def plain_file_def example_paths)
  have m: "ModTime (Info ?a) = 0" by (simp add: item_def plain_file_def)
  have d: "refuses (Db locked_world) (InsertFile 1 (hex (unat ?h)) ''/root/a.txt'' 0)
           = Some (DriverError ''database is locked'')"
    by (simp add: locked_world_def)
  have d': "refuses (Db locked_world) (InsertFile 1 (hex (unat ?h)) (qpath ?a) (ModTime (Info ?a)))
           = Some (DriverError ''database is locked'')"
    using d by (simp add: q m)
  have k: "\<not> IsDir (Info ?a)" "IsRegular (Mode (Info ?a))" "includes' (Opts ?c) = []"
    by (simp_all add: item_def plain_file_def IsDir_def IsRegular_def options_def)
  have e: "calls locked_world = []" by (simp add: locked_world_def)
  from catalog_error_is_discarded [OF o s d', where c = ?c and Q = "[]"] o s d q m k e
  show ?thesis by (simp add: walk.simps)
qed

subsection \<open>The calls of a run that succeeds\<close>

lemma Run_visits:
  assumes "snd (Run c (Inr rootInfo) w) = None"
  shows "mset (new_calls w (fst (Run c (Inr rootInfo) w))) =
         mset (visits c (Dir (root (Opts c))) rootInfo)"
proof -
  let ?Q = "[\<lparr>Info = rootInfo, Context = Dir (root (Opts c))\<rparr>]"
  have dir: "IsDir rootInfo"
    using assms by (auto simp add: Run_def Let_def split: if_splits)
  obtain d res where e: "EnsureRootId (Db w) (root (Opts c)) = (d, res)"
    by (cases "EnsureRootId (Db w) (root (Opts c))")
  with assms dir obtain rid where res: "res = Inr rid"
    by (cases res) (auto simp add: Run_def Let_def)
  have run: "Run c (Inr rootInfo) w = walk c rid ?Q (w\<lparr>Db := d\<rparr>)"
    using Run_walk [OF dir] e res by simp
  with assms walk_visits [of c rid ?Q "w\<lparr>Db := d\<rparr>"]
  have "mset (calls (fst (Run c (Inr rootInfo) w))) =
        mset (calls w) + mset (visits c (Dir (root (Opts c))) rootInfo)"
    by simp
  moreover have "calls (fst (Run c (Inr rootInfo) w)) =
      calls w @ new_calls w (fst (Run c (Inr rootInfo) w))"
    using clean_run_new [OF Run_clean [of c "Inr rootInfo" w]] by simp
  ultimately show ?thesis by (metis add_left_cancel mset_append)
qed




text \<open>
  C10. The root is not filtered. When the path of the root matches an exclusion
  pattern, \<open>Run\<close> still opens the root and goes on with the entries of it that are not
  excluded; if the run returns no error, its calls are the opening of the root and
  the visits of those entries.
\<close>

theorem root_is_not_filtered:
  assumes "Match (excludes (Opts c)) (Join (Dir (root (Opts c))) (Name rootInfo))"
    and "IsDir rootInfo" and "Open rootInfo = Inr d" and "Readdir rootInfo = Inr infos"
    and "EnsureRootId (Db w) (root (Opts c)) = (db, Inr rid)"
  shows "Run c (Inr rootInfo) w =
           walk c rid (enqueue c (Join (Dir (root (Opts c))) (Name rootInfo)) infos)
             (w\<lparr>Db := db, calls := calls w @ [OpenDir (Join (Dir (root (Opts c))) (Name rootInfo))]\<rparr>)
       \<and> (snd (Run c (Inr rootInfo) w) = None \<longrightarrow>
            mset (new_calls w (fst (Run c (Inr rootInfo) w))) =
            mset (OpenDir (Join (Dir (root (Opts c))) (Name rootInfo)) #
                  concat (map (visits c (Join (Dir (root (Opts c))) (Name rootInfo)))
                           (kept c (Join (Dir (root (Opts c))) (Name rootInfo)) infos))))"
proof -
  let ?q = "\<lparr>Info = rootInfo, Context = Dir (root (Opts c))\<rparr>"
  have "Run c (Inr rootInfo) w = walk c rid [?q] (w\<lparr>Db := db\<rparr>)"
    using assms(2,5) by (rule Run_walk)
  also have "\<dots> = walk c rid ([] @ enqueue c (qpath ?q) infos)
                    ((w\<lparr>Db := db\<rparr>)\<lparr>calls := calls (w\<lparr>Db := db\<rparr>) @ [OpenDir (qpath ?q)]\<rparr>)"
    using assms(2-4) by (intro walk_dir) simp_all
  finally have 1: "Run c (Inr rootInfo) w =
           walk c rid (enqueue c (Join (Dir (root (Opts c))) (Name rootInfo)) infos)
             (w\<lparr>Db := db, calls := calls w @ [OpenDir (Join (Dir (root (Opts c))) (Name rootInfo))]\<rparr>)"
    by (simp add: qpath_def)
  have 2: "mset (new_calls w (fst (Run c (Inr rootInfo) w))) =
            mset (OpenDir (Join (Dir (root (Opts c))) (Name rootInfo)) #
                  concat (map (visits c (Join (Dir (root (Opts c))) (Name rootInfo)))
                           (kept c (Join (Dir (root (Opts c))) (Name rootInfo)) infos)))"
    if "snd (Run c (Inr rootInfo) w) = None"
    using Run_visits [OF that] visits_dir [OF assms(2,4), of c "Dir (root (Opts c))"] by simp
  from 1 2 show ?thesis by blast
qed

theorem root_is_not_filtered_witness:
  "Match (excludes (Opts (options ''/root'' [exactly ''/root''] [])))
     (Join (Dir ''/root'') (Name (directory [] ''root'' [plain_file ''/root'' ''a.txt'' ten_bytes])))
   \<and> IsDir (directory [] ''root'' [plain_file ''/root'' ''a.txt'' ten_bytes])
   \<and> EnsureRootId (Db empty_world) ''/root''
       = (\<lparr>roots = [(1, ''/root'')], files = [], refuses = (\<lambda>s. None)\<rparr>, Inr 1)
   \<and> snd (Run (options ''/root'' [exactly ''/root''] [])
        (Inr (directory [] ''root'' [plain_file ''/root'' ''a.txt'' ten_bytes])) empty_world) = None
   \<and> new_calls empty_world (fst (Run (options ''/root'' [exactly ''/root''] [])
        (Inr (directory [] ''root'' [plain_file ''/root'' ''a.txt'' ten_bytes])) empty_world))
     = [OpenDir ''/root'', OpenFile ''/root/a.txt'']
   \<and> new_paths empty_world (fst (Run (options ''/root'' [exactly ''/root''] [])
        (Inr (directory [] ''root'' [plain_file ''/root'' ''a.txt'' ten_bytes])) empty_world))
     = [''/root/a.txt'']"
proof -
  let ?c = "options ''/root'' [exactly ''/root''] []"
  let ?t = "directory [] ''root'' [plain_file ''/root'' ''a.txt'' ten_bytes]"
  let ?d = "\<lparr>roots = [(1, ''/root'')], files = [], refuses = (\<lambda>s. None)\<rparr>"
  have m: "Match (excludes (Opts ?c)) (Join (Dir (root (Opts ?c))) (Name ?t))"
    by (simp add: example_defs example_paths)
  have i: "IsDir ?t" by (simp add: directory_def IsDir_def)
  have o: "Open ?t = Inr \<lparr>name = ''/root'', contents = [], bad = (\<lambda>p. False)\<rparr>"
    by (simp add: directory_def)
  have l: "Readdir ?t = Inr [plain_file ''/root'' ''a.txt'' ten_bytes]"
    by (simp add: directory_def)
  have e: "EnsureRootId (Db empty_world) (root (Opts ?c)) = (?d, Inr 1)"
    by (simp add: EnsureRootId_def next_id_def example_defs Let_def)
  have w: "walk ?c 1 (enqueue ?c ''/root'' [plain_file ''/root'' ''a.txt'' ten_bytes])
             (empty_world\<lparr>Db := ?d, calls := [OpenDir ''/root'']\<rparr>)
           = (empty_world\<lparr>Db := fst (CatalogHash ?d 1
                  (XXH64 0 (le64 (XXH64 0 ten_bytes) @ le64 10)) ''/root/a.txt'' 0),
                calls := [OpenDir ''/root'', OpenFile ''/root/a.txt'']\<rparr>, None)"
    by (simp add: run_defs example_defs example_paths New64_def Write_def Sum64_def
        uint64_of_def)
  have p: "new_paths empty_world (empty_world\<lparr>Db := fst (CatalogHash ?d 1
                  (XXH64 0 (le64 (XXH64 0 ten_bytes) @ le64 10)) ''/root/a.txt'' 0),
                calls := [OpenDir ''/root'', OpenFile ''/root/a.txt'']\<rparr>) = [''/root/a.txt'']"
    by (simp add: new_paths_def CatalogHash_def empty_world_def Let_def)
  have c0: "calls empty_world = []" "root (Opts ?c) = ''/root''"
    by (simp_all add: example_defs)
  from root_is_not_filtered [OF m i o l e] m i e w p c0
  show ?thesis by (simp add: example_paths directory_def new_calls_def)
qed

end
